theory Spec2Isabelle
  imports Complex_Main
begin

section \<open>Scores, moves and exceptions\<close>

text \<open>
  Scores are Python floats. The two infinities \<^verbatim>\<open>float("inf")\<close> and
  \<^verbatim>\<open>float("-inf")\<close> are values of their own; every other float is read as
  the real number it denotes (rounding and overflow are not modelled).
  The order is the one Python's \<^verbatim>\<open><\<close> and \<^verbatim>\<open><=\<close> compute on these values.
\<close>

datatype pyfloat = NegInf | Fin real | PosInf

instantiation pyfloat :: linorder
begin

fun less_eq_pyfloat :: "pyfloat \<Rightarrow> pyfloat \<Rightarrow> bool" where
  "less_eq_pyfloat NegInf y = True"
| "less_eq_pyfloat (Fin x) NegInf = False"
| "less_eq_pyfloat (Fin x) (Fin y) = (x \<le> y)"
| "less_eq_pyfloat (Fin x) PosInf = True"
| "less_eq_pyfloat PosInf NegInf = False"
| "less_eq_pyfloat PosInf (Fin y) = False"
| "less_eq_pyfloat PosInf PosInf = True"

definition less_pyfloat :: "pyfloat \<Rightarrow> pyfloat \<Rightarrow> bool" where
  "less_pyfloat x y = (x \<le> y \<and> \<not> y \<le> x)"

instance
proof
  fix x y z :: pyfloat
  show "(x < y) = (x \<le> y \<and> \<not> y \<le> x)" by (simp add: less_pyfloat_def)
  show "x \<le> x" by (cases x) simp_all
  show "x \<le> y \<Longrightarrow> y \<le> z \<Longrightarrow> x \<le> z" by (cases x; cases y; cases z) simp_all
  show "x \<le> y \<Longrightarrow> y \<le> x \<Longrightarrow> x = y" by (cases x; cases y) simp_all
  show "x \<le> y \<or> y \<le> x" by (cases x; cases y) auto
qed

end

text \<open>
  The exceptions the code can raise: \<open>Timeout\<close> is the class of the source;
  \<open>ZeroDivisionError\<close> comes from the divisions of the heuristics,
  \<open>TypeError\<close> from calling \<^verbatim>\<open>self.time_left\<close> while it is still \<^verbatim>\<open>None\<close>, and
  \<open>UnboundLocalError\<close> from reading \<^verbatim>\<open>best_round_score\<close> when \<^verbatim>\<open>self.method\<close> names
  neither search.
\<close>

datatype exn = Timeout | ZeroDivisionError | TypeError | UnboundLocalError

datatype player_id = Player1 | Player2

type_synonym move = "int \<times> int"

text \<open>
  The move component of a search result. A legal move is a pair of ints (\<open>Flat\<close>);
  line 388 of the source builds the tuple \<^verbatim>\<open>(next_move, overall_best_move)\<close>,
  which is \<open>Nested\<close>.
\<close>

datatype move_val = Flat move | Nested move move_val

definition sentinel :: move_val where
  "sentinel = Flat (-1, -1)"

section \<open>The board collaborator\<close>

text \<open>
  Modelled from the spec: \<^verbatim>\<open>isolation.Board\<close> is not part of the source file; the
  searches and heuristics only use \<^verbatim>\<open>get_legal_moves\<close>, \<^verbatim>\<open>forecast_move\<close>,
  \<^verbatim>\<open>get_opponent\<close>, \<^verbatim>\<open>get_blank_spaces\<close>, \<^verbatim>\<open>width\<close> and \<^verbatim>\<open>height\<close>. A board is the
  snapshot of what these return: \<open>succs\<close> lists, in the board's enumeration order,
  every legal move of the active player together with the board that
  \<^verbatim>\<open>forecast_move\<close> returns for it; \<open>inactive_moves\<close> are the legal moves of the
  other player. Every game of Isolation ends, so the tree is finite.
\<close>

datatype board = Board (width: int) (height: int) (blank_spaces: "move list")
  (active_player: player_id) (succs: "(move \<times> board) list") (inactive_moves: "move list")

definition get_legal_moves :: "board \<Rightarrow> move list" where
  "get_legal_moves game = map fst (succs game)"

definition get_legal_moves_of :: "board \<Rightarrow> player_id \<Rightarrow> move list" where
  "get_legal_moves_of game player =
     (if player = active_player game then get_legal_moves game else inactive_moves game)"

definition get_opponent :: "board \<Rightarrow> player_id \<Rightarrow> player_id" where
  "get_opponent game player = (case player of Player1 \<Rightarrow> Player2 | Player2 \<Rightarrow> Player1)"

definition get_blank_spaces :: "board \<Rightarrow> move list" where
  "get_blank_spaces game = blank_spaces game"

section \<open>The heuristics\<close>

text \<open>
  The three heuristics of lines 40-146. \<^verbatim>\<open>/\<close> is the true division of Python 3, which
  raises \<^verbatim>\<open>ZeroDivisionError\<close> on a zero divisor; \<^verbatim>\<open>not xs\<close> holds of the empty list.
  The two infinite results are exact. A finite result is the exact real value of the
  expression, where the code rounds every operation to a double: two finite scores
  that differ only by rounding are equal here.
\<close>

definition calc_ratio_of_moves :: "board \<Rightarrow> player_id \<Rightarrow> exn + pyfloat" where
  "calc_ratio_of_moves game player =
     (let player_factor = (1::nat);
          opp_factor = (1::nat);
          player_moves = get_legal_moves_of game player;
          opp_moves = get_legal_moves_of game (get_opponent game player)
      in if opp_moves = [] then Inr PosInf
         else if player_moves = [] then Inr NegInf
         else Inr (Fin (real (player_factor * length player_moves)
                        / real (opp_factor * length opp_moves))))"

definition calc_move_diff_with_spaces :: "board \<Rightarrow> player_id \<Rightarrow> exn + pyfloat" where
  "calc_move_diff_with_spaces game player =
     (let player_factor = (1::nat);
          opp_factor = (2::nat);
          player_moves = get_legal_moves_of game player;
          opp_moves = get_legal_moves_of game (get_opponent game player);
          open_spaces = length (get_blank_spaces game);
          total_spaces = width game * height game
      in if opp_moves = [] then Inr PosInf
         else if player_moves = [] then Inr NegInf
         else if open_spaces = 0 then Inl ZeroDivisionError
         else Inr (Fin (real (player_factor * length player_moves)
                          * (real_of_int total_spaces / real open_spaces)
                        - real (opp_factor * length opp_moves))))"

text \<open>
  The two \<^verbatim>\<open>for\<close> loops of \<^verbatim>\<open>calc_move_diff_from_center\<close> (lines 129-133 and 136-140):
  the running sum is the accumulator, and dividing by a zero \<^verbatim>\<open>game.width\<close> raises.
\<close>

fun center_loop :: "move \<Rightarrow> int \<Rightarrow> move list \<Rightarrow> real \<Rightarrow> exn + real" where
  "center_loop board_center w [] acc = Inr acc"
| "center_loop board_center w (mv # rest) acc =
     (if mv = (3, 3) then center_loop board_center w rest (acc + 1)
      else if w = 0 then Inl ZeroDivisionError
      else center_loop board_center w rest
             (acc + (1 - sqrt (real_of_int ((fst board_center - fst mv)\<^sup>2
                                            + (snd board_center - snd mv)\<^sup>2))
                         / real_of_int w)))"

definition calc_move_diff_from_center :: "board \<Rightarrow> player_id \<Rightarrow> exn + pyfloat" where
  "calc_move_diff_from_center game player =
     (let player_factor = (1::real);
          opp_factor = (2::real);
          board_center = (width game div 2, height game div 2);
          player_moves = get_legal_moves_of game player
      in case center_loop board_center (width game) player_moves 0 of
           Inl e \<Rightarrow> Inl e
         | Inr player_score \<Rightarrow>
             (let opp_moves = get_legal_moves_of game (get_opponent game player)
              in case center_loop board_center (width game) opp_moves 0 of
                   Inl e \<Rightarrow> Inl e
                 | Inr opp_score \<Rightarrow>
                     if opp_moves = [] then Inr PosInf
                     else if player_moves = [] then Inr NegInf
                     else Inr (Fin (player_factor * player_score - opp_factor * opp_score))))"

definition custom_score :: "board \<Rightarrow> player_id \<Rightarrow> exn + pyfloat" where
  "custom_score game player = calc_move_diff_from_center game player"

section \<open>The player and what a search observes\<close>

text \<open>
  The fields of \<^verbatim>\<open>CustomPlayer\<close>. \<open>handle\<close> is the identity under which the board
  knows the player: \<^verbatim>\<open>self.score(game, self)\<close> passes it to the heuristic.
  \<open>time_left\<close> is \<^verbatim>\<open>None\<close> until \<^verbatim>\<open>get_move\<close> stores the caller's clock; a clock is a
  function from the number of readings taken so far to the milliseconds the next
  reading returns.
\<close>

record custom_player =
  search_depth :: int
  score :: "board \<Rightarrow> player_id \<Rightarrow> exn + pyfloat"
  iterative :: bool
  method_name :: string
  time_left :: "(nat \<Rightarrow> real) option"
  TIMER_THRESHOLD :: real
  handle :: player_id

text \<open>
  What a run has done so far: how often it has read the clock, called the heuristic
  and asked the board for a forecast.
\<close>

record trace =
  time_calls :: nat
  score_calls :: nat
  forecast_calls :: nat

definition tick :: "trace \<Rightarrow> trace" where
  "tick s = s\<lparr>time_calls := Suc (time_calls s)\<rparr>"

definition scored :: "trace \<Rightarrow> trace" where
  "scored s = s\<lparr>score_calls := Suc (score_calls s)\<rparr>"

definition forecast :: "trace \<Rightarrow> trace" where
  "forecast s = s\<lparr>forecast_calls := Suc (forecast_calls s)\<rparr>"

type_synonym outcome = "exn + (pyfloat \<times> move_val)"

section \<open>Minimax\<close>

text \<open>
  \<open>minimax\<close> is the method of lines 269-323; \<open>minimax_loop\<close> is its \<^verbatim>\<open>for\<close> loop over
  the moves still to try, with \<^verbatim>\<open>highest_move_diff\<close> and \<^verbatim>\<open>overall_best_move\<close> as
  accumulators. An exception of a recursive call leaves the loop at once.
\<close>

function minimax :: "custom_player \<Rightarrow> board \<Rightarrow> int \<Rightarrow> bool \<Rightarrow> trace \<Rightarrow> outcome \<times> trace"
  and minimax_loop :: "custom_player \<Rightarrow> int \<Rightarrow> bool \<Rightarrow> (move \<times> board) list \<Rightarrow> pyfloat
                        \<Rightarrow> move_val \<Rightarrow> trace \<Rightarrow> outcome \<times> trace"
where
  "minimax self game depth maximizing_player s =
    (case time_left self of
       None \<Rightarrow> (Inl TypeError, s)
     | Some clock \<Rightarrow>
        if clock (time_calls s) < TIMER_THRESHOLD self then (Inl Timeout, tick s)
        else if depth = 0 \<or> succs game = [] then
          (case score self game (handle self) of
             Inl e \<Rightarrow> (Inl e, scored (tick s))
           | Inr score_diff \<Rightarrow> (Inr (score_diff, sentinel), scored (tick s)))
        else minimax_loop self depth maximizing_player (succs game)
               (if maximizing_player then NegInf else PosInf) sentinel (tick s))"
| "minimax_loop self depth maximizing_player [] highest_move_diff overall_best_move s =
    (Inr (highest_move_diff, overall_best_move), s)"
| "minimax_loop self depth maximizing_player ((next_move, temp_board) # rest)
      highest_move_diff overall_best_move s =
    (case minimax self temp_board (depth - 1) (\<not> maximizing_player) (forecast s) of
       (Inl e, s') \<Rightarrow> (Inl e, s')
     | (Inr (curr_move_diff, curr_best_move), s') \<Rightarrow>
        if maximizing_player then
          (if curr_move_diff > highest_move_diff
           then minimax_loop self depth maximizing_player rest curr_move_diff (Flat next_move) s'
           else minimax_loop self depth maximizing_player rest
                  highest_move_diff overall_best_move s')
        else
          (if curr_move_diff < highest_move_diff
           then minimax_loop self depth maximizing_player rest curr_move_diff (Flat next_move) s'
           else minimax_loop self depth maximizing_player rest
                  highest_move_diff overall_best_move s'))"
  by pat_completeness auto
termination
proof (relation "measure (\<lambda>x. case x of
          Inl (self, game, depth, mx, s) \<Rightarrow> size game
        | Inr (self, depth, mx, cs, hi, best, s) \<Rightarrow> size_list (size_prod (\<lambda>_. 0) size) cs)",
       goal_cases)
  case (2 self game depth maximizing_player s clock)
  then show ?case by (cases game) simp
qed auto

section \<open>Alpha-beta\<close>

text \<open>
  \<open>alphabeta\<close> is the method of lines 325-392 and \<open>alphabeta_loop\<close> its \<^verbatim>\<open>for\<close> loop;
  \<^verbatim>\<open>alpha\<close> and \<^verbatim>\<open>beta\<close> are local variables the loop updates, so they are
  accumulators as well.
\<close>

function alphabeta :: "custom_player \<Rightarrow> board \<Rightarrow> int \<Rightarrow> pyfloat \<Rightarrow> pyfloat \<Rightarrow> bool \<Rightarrow> trace
                        \<Rightarrow> outcome \<times> trace"
  and alphabeta_loop :: "custom_player \<Rightarrow> int \<Rightarrow> bool \<Rightarrow> (move \<times> board) list \<Rightarrow> pyfloat
                        \<Rightarrow> pyfloat \<Rightarrow> pyfloat \<Rightarrow> move_val \<Rightarrow> trace \<Rightarrow> outcome \<times> trace"
where
  "alphabeta self game depth alpha beta maximizing_player s =
    (case time_left self of
       None \<Rightarrow> (Inl TypeError, s)
     | Some clock \<Rightarrow>
        if clock (time_calls s) < TIMER_THRESHOLD self then (Inl Timeout, tick s)
        else if depth = 0 \<or> succs game = [] then
          (case score self game (handle self) of
             Inl e \<Rightarrow> (Inl e, scored (tick s))
           | Inr score_diff \<Rightarrow> (Inr (score_diff, sentinel), scored (tick s)))
        else alphabeta_loop self depth maximizing_player (succs game) alpha beta
               (if maximizing_player then NegInf else PosInf) sentinel (tick s))"
| "alphabeta_loop self depth maximizing_player [] alpha beta
      highest_move_diff overall_best_move s =
    (Inr (highest_move_diff, overall_best_move), s)"
| "alphabeta_loop self depth maximizing_player ((next_move, temp_board) # rest) alpha beta
      highest_move_diff overall_best_move s =
    (case alphabeta self temp_board (depth - 1) alpha beta (\<not> maximizing_player) (forecast s) of
       (Inl e, s') \<Rightarrow> (Inl e, s')
     | (Inr (curr_move_diff, curr_best_move), s') \<Rightarrow>
        if maximizing_player then
          (let improved = curr_move_diff > highest_move_diff;
               highest_move_diff = (if improved then curr_move_diff else highest_move_diff);
               overall_best_move = (if improved then Flat next_move else overall_best_move)
           in if highest_move_diff \<ge> beta then (Inr (curr_move_diff, Flat next_move), s')
              else alphabeta_loop self depth maximizing_player rest
                     (max alpha curr_move_diff) beta highest_move_diff overall_best_move s')
        else
          (let improved = curr_move_diff < highest_move_diff;
               highest_move_diff = (if improved then curr_move_diff else highest_move_diff);
               overall_best_move =
                 (if improved then Nested next_move overall_best_move else overall_best_move)
           in if highest_move_diff \<le> alpha then (Inr (curr_move_diff, Flat next_move), s')
              else alphabeta_loop self depth maximizing_player rest
                     alpha (min beta curr_move_diff) highest_move_diff overall_best_move s'))"
  by pat_completeness auto
termination
proof (relation "measure (\<lambda>x. case x of
          Inl (self, game, depth, alpha, beta, mx, s) \<Rightarrow> size game
        | Inr (self, depth, mx, cs, alpha, beta, hi, best, s) \<Rightarrow>
            size_list (size_prod (\<lambda>_. 0) size) cs)",
       goal_cases)
  case (2 self game depth alpha beta maximizing_player s clock)
  then show ?case by (cases game) simp
qed auto

section \<open>Move selection\<close>

text \<open>
  The \<^verbatim>\<open>if\<close>/\<^verbatim>\<open>elif\<close> on \<^verbatim>\<open>self.method\<close>, which both modes of \<^verbatim>\<open>get_move\<close> repeat:
  \<open>None\<close> when neither branch is taken, so that nothing is searched and nothing assigned.
  Both searches are called with their default arguments.
\<close>

definition search_call :: "custom_player \<Rightarrow> board \<Rightarrow> int \<Rightarrow> trace \<Rightarrow> (outcome \<times> trace) option" where
  "search_call self game depth s =
     (if method_name self = ''minimax'' then Some (minimax self game depth True s)
      else if method_name self = ''alphabeta''
        then Some (alphabeta self game depth NegInf PosInf True s)
      else None)"

text \<open>
  The \<^verbatim>\<open>while True\<close> loop of lines 236-251. It only ends by an exception, so it is a
  partial function: \<open>None\<close> is a loop that runs forever.
\<close>

partial_function (option) iterative_deepening ::
  "custom_player \<Rightarrow> board \<Rightarrow> int \<Rightarrow> move_val \<Rightarrow> pyfloat \<Rightarrow> trace
     \<Rightarrow> ((exn + move_val) \<times> trace) option"
where
  "iterative_deepening self game curr_depth best_move_overall best_score_overall s =
     (case search_call self game curr_depth s of
        None \<Rightarrow> Some (Inl UnboundLocalError, s)
      | Some (Inl e, s') \<Rightarrow>
          if e = Timeout then Some (Inr best_move_overall, s') else Some (Inl e, s')
      | Some (Inr (best_round_score, best_round_move), s') \<Rightarrow>
          if best_score_overall < best_round_score
          then iterative_deepening self game (curr_depth + 1) best_round_move best_round_score s'
          else iterative_deepening self game (curr_depth + 1)
                 best_move_overall best_score_overall s')"

definition fixed_depth :: "custom_player \<Rightarrow> board \<Rightarrow> trace \<Rightarrow> (exn + move_val) \<times> trace" where
  "fixed_depth self game s =
     (case search_call self game (search_depth self) s of
        None \<Rightarrow> (Inr sentinel, s)
      | Some (Inl e, s') \<Rightarrow> if e = Timeout then (Inr sentinel, s') else (Inl e, s')
      | Some (Inr (best_score_overall, best_move_overall), s') \<Rightarrow> (Inr best_move_overall, s'))"

text \<open>
  \<open>get_move\<close> of lines 187-267. Its first statement stores the caller's clock in
  the player; the searches read it from there.
\<close>

definition get_move :: "custom_player \<Rightarrow> board \<Rightarrow> move list \<Rightarrow> (nat \<Rightarrow> real) \<Rightarrow> trace
                          \<Rightarrow> ((exn + move_val) \<times> trace) option" where
  "get_move self0 game legal_moves clock s =
     (let self = self0\<lparr>time_left := Some clock\<rparr>
      in if legal_moves = [] then Some (Inr sentinel, s)
         else if iterative self then iterative_deepening self game 1 sentinel NegInf s
         else Some (fixed_depth self game s))"

section \<open>Notions used in the statements\<close>

text \<open>
  The update of lines 244-246: the round's result replaces the best so far only when
  its score is strictly greater.
\<close>

fun keep_better :: "pyfloat \<times> move_val \<Rightarrow> pyfloat \<times> move_val \<Rightarrow> pyfloat \<times> move_val" where
  "keep_better (best_score, best_move) (round_score, round_move) =
     (if best_score < round_score then (round_score, round_move) else (best_score, best_move))"

text \<open>
  The first \<open>k\<close> rounds of iterative deepening, from \<open>depth\<close> on, when each of them
  returns normally: their results in order and the trace after the last; \<open>None\<close> when
  one of them raises or no search is configured.
\<close>

fun completed_rounds :: "custom_player \<Rightarrow> board \<Rightarrow> nat \<Rightarrow> int \<Rightarrow> trace
                          \<Rightarrow> ((pyfloat \<times> move_val) list \<times> trace) option" where
  "completed_rounds self game 0 depth s = Some ([], s)"
| "completed_rounds self game (Suc k) depth s =
     (case search_call self game depth s of
        Some (Inr r, s') \<Rightarrow>
          (case completed_rounds self game k (depth + 1) s' of
             Some (rs, s'') \<Rightarrow> Some (r # rs, s'')
           | None \<Rightarrow> None)
      | _ \<Rightarrow> None)"


text \<open>
  A run from trace \<open>s\<close> to trace \<open>s'\<close> respects the clock when every reading but the last
  was at or above the threshold, and \<open>expired\<close> says whether the last one was below it.
\<close>

definition clock_guard :: "custom_player \<Rightarrow> (nat \<Rightarrow> real) \<Rightarrow> trace \<Rightarrow> bool \<Rightarrow> trace \<Rightarrow> bool" where
  "clock_guard self clock s expired s' \<longleftrightarrow>
     time_calls s \<le> time_calls s'
     \<and> (\<forall>k. time_calls s \<le> k \<and> Suc k < time_calls s' \<longrightarrow> \<not> clock k < TIMER_THRESHOLD self)
     \<and> (expired \<longleftrightarrow> time_calls s < time_calls s'
                      \<and> clock (time_calls s' - 1) < TIMER_THRESHOLD self)"

text \<open>
  What a search with window \<open>(alpha, beta)\<close> may return (\<open>v\<close>) for a position of minimax
  value \<open>w\<close>: the value itself inside the window, a bound on it outside.
\<close>

definition fail_soft :: "pyfloat \<Rightarrow> pyfloat \<Rightarrow> pyfloat \<Rightarrow> pyfloat \<Rightarrow> bool" where
  "fail_soft alpha beta w v \<longleftrightarrow>
     (v \<le> alpha \<longrightarrow> w \<le> v) \<and> (alpha < v \<and> v < beta \<longrightarrow> v = w) \<and> (beta \<le> v \<longrightarrow> v \<le> w)"

section \<open>Example positions\<close>

text \<open>
  A player that scores with the move ratio and deepens iteratively with minimax, on a
  clock that starts at 200 ms and loses 10 ms with every reading: the reading number 20
  is the first below the threshold of 3 ms.
\<close>

definition deepening_player :: custom_player where
  "deepening_player = \<lparr>search_depth = 3, score = calc_ratio_of_moves, iterative = True,
     method_name = ''minimax'', time_left = Some (\<lambda>n. 200 - 10 * real n),
     TIMER_THRESHOLD = 3, handle = Player1\<rparr>"

text \<open>
  A player that scores with the move ratio and searches one ply deep with minimax, on
  a clock that starts at 100 ms.
\<close>

definition ratio_player :: custom_player where
  "ratio_player = \<lparr>search_depth = 1, score = calc_ratio_of_moves, iterative = False,
     method_name = ''minimax'', time_left = Some (\<lambda>n. 100 - 10 * real n),
     TIMER_THRESHOLD = 3, handle = Player1\<rparr>"

definition start :: trace where
  "start = \<lparr>time_calls = 0, score_calls = 0, forecast_calls = 0\<rparr>"

text \<open>Neither player can move.\<close>

definition both_trapped :: board where
  "both_trapped = Board 7 7 [(0, 0)] Player1 [] []"

text \<open>
  Player 2 is to move and has one move; player 1 has none. \<open>only_losing_move\<close> is
  the position before it: player 1 has exactly one legal move, and it leads there.
\<close>

definition lost_after :: board where
  "lost_after = Board 7 7 [(6, 6)] Player2 [((6, 6), Board 7 7 [] Player1 [] [])] []"

definition only_losing_move :: board where
  "only_losing_move = Board 7 7 [(2, 1), (6, 6)] Player1 [((2, 1), lost_after)] [(6, 6)]"

text \<open>Player 2 is to move, with one legal move, after which each player has one move.\<close>

definition min_node :: board where
  "min_node = Board 7 7 [(2, 1), (4, 4)] Player2
     [((2, 1), Board 7 7 [(4, 4)] Player1 [((4, 4), Board 7 7 [] Player2 [] [])] [(4, 4)])]
     [(4, 4)]"

text \<open>
  A game of three plies. Player 1 has three moves; after each of them player 2
  replies, then player 1 has one move left, and the game is over. One ply deep the
  move ratios after \<open>(2, 1)\<close>, \<open>(1, 2)\<close> and \<open>(3, 2)\<close> are 3, 2 and 1; two plies deep the
  minimax values are 1/2, 1 and 1/3.
\<close>

definition stuck :: board where
  "stuck = Board 7 7 [] Player2 [] []"

definition reply_a :: board where
  "reply_a = Board 7 7 [(3, 3)] Player1 [((3, 3), stuck)] [(5, 6), (6, 5)]"

definition reply_b :: board where
  "reply_b = Board 7 7 [(3, 3)] Player1 [((3, 3), stuck)] [(5, 6)]"

definition reply_c :: board where
  "reply_c = Board 7 7 [(3, 3)] Player1 [((3, 3), stuck)] [(5, 6), (6, 5), (6, 6)]"

definition after_a :: board where
  "after_a = Board 7 7 [(5, 5)] Player2 [((5, 5), reply_a)] [(3, 3), (3, 4), (4, 3)]"

definition after_b :: board where
  "after_b = Board 7 7 [(5, 5)] Player2 [((5, 5), reply_b)] [(3, 3), (3, 4)]"

definition after_c :: board where
  "after_c = Board 7 7 [(5, 5), (5, 6)] Player2 [((5, 5), reply_c), ((5, 6), reply_b)]
     [(3, 3), (3, 4)]"

definition three_moves :: board where
  "three_moves = Board 7 7 [(2, 1), (1, 2), (3, 2)] Player1
     [((2, 1), after_a), ((1, 2), after_b), ((3, 2), after_c)] [(5, 5)]"

text \<open>
  Player 2 to move, with the replies of \<open>after_c\<close> in the other order.
\<close>

definition after_d :: board where
  "after_d = Board 7 7 [(5, 5), (5, 6)] Player2 [((5, 5), reply_b), ((5, 6), reply_c)]
     [(3, 3), (3, 4)]"

text \<open>
  The moves of \<open>three_moves\<close> in the order of increasing score, and a position of
  player 2 with three replies, of scores 1, 1/3 and 1/2.
\<close>

definition ascending :: board where
  "ascending = Board 7 7 [(3, 2), (1, 2), (2, 1)] Player1
     [((3, 2), after_c), ((1, 2), after_b), ((2, 1), after_a)] [(5, 5)]"

definition after_e :: board where
  "after_e = Board 7 7 [(5, 5), (5, 6), (6, 5)] Player2
     [((5, 5), reply_b), ((5, 6), reply_c), ((6, 5), reply_a)] [(3, 3), (3, 4)]"

section \<open>Basic facts\<close>

declare minimax.simps [simp del] alphabeta.simps [simp del]

lemma less_pyfloat_simps [simp]:
  "NegInf < Fin x" "NegInf < PosInf" "Fin x < PosInf" "(Fin x < Fin y) = (x < y)"
  "\<not> a < NegInf" "\<not> PosInf < a"
  by (cases a; auto simp: less_pyfloat_def)+

lemma less_eq_pyfloat_simps [simp]: "a \<le> PosInf" "(PosInf \<le> a) = (a = PosInf)"
  "(a \<le> NegInf) = (a = NegInf)"
  by (cases a; simp)+

lemma center_loop_returns: "w \<noteq> 0 \<Longrightarrow> \<exists>r. center_loop c w mvs acc = Inr r"
  by (induction mvs arbitrary: acc) auto

lemmas ex_defs = deepening_player_def ratio_player_def stuck_def reply_a_def reply_b_def
  reply_c_def after_a_def after_b_def after_c_def three_moves_def start_def
  after_d_def only_losing_move_def lost_after_def min_node_def ascending_def after_e_def
  get_legal_moves_def get_legal_moves_of_def get_opponent_def calc_ratio_of_moves_def
  tick_def scored_def forecast_def sentinel_def Let_def minimax.simps alphabeta.simps

lemma ratio_never_timeout: "calc_ratio_of_moves b p \<noteq> Inl Timeout"
  by (simp add: calc_ratio_of_moves_def Let_def)

lemma time_calls_simps [simp]:
  "time_calls (tick s) = Suc (time_calls s)"
  "time_calls (scored s) = time_calls s"
  "time_calls (forecast s) = time_calls s"
  by (simp_all add: tick_def scored_def forecast_def)

text \<open>
  One iteration of each loop, read off a run that returned normally.
\<close>

lemma minimax_loop_ConsE:
  assumes "minimax_loop self d mx ((m, b) # rest) hm bm s = (Inr r, t)"
  obtains curr cm s' where
    "minimax self b (d - 1) (\<not> mx) (forecast s) = (Inr (curr, cm), s')"
    "mx \<Longrightarrow> minimax_loop self d mx rest (max hm curr)
            (if hm < curr then Flat m else bm) s' = (Inr r, t)"
    "\<not> mx \<Longrightarrow> minimax_loop self d mx rest (min hm curr)
            (if curr < hm then Flat m else bm) s' = (Inr r, t)"
proof -
  obtain rc s' where child: "minimax self b (d - 1) (\<not> mx) (forecast s) = (rc, s')"
    by (cases "minimax self b (d - 1) (\<not> mx) (forecast s)")
  show ?thesis
  proof (cases rc)
    case (Inl e)
    with assms child show ?thesis by simp
  next
    case (Inr sm)
    obtain curr cm where sm: "sm = (curr, cm)" by (cases sm)
    have "max hm curr = (if hm < curr then curr else hm)"
         "min hm curr = (if curr < hm then curr else hm)"
      by (auto simp: max_def min_def)
    then show ?thesis
      using assms child Inr sm that[of curr cm s'] by (cases mx) (auto split: if_splits)
  qed
qed

lemma alphabeta_loop_ConsE:
  assumes "alphabeta_loop self d mx ((m, b) # rest) alpha beta hi best s = (Inr r, t)"
  obtains curr cm s' where
    "alphabeta self b (d - 1) alpha beta (\<not> mx) (forecast s) = (Inr (curr, cm), s')"
    "mx \<Longrightarrow> beta \<le> max hi curr \<Longrightarrow> r = (curr, Flat m) \<and> t = s'"
    "mx \<Longrightarrow> \<not> beta \<le> max hi curr \<Longrightarrow>
       alphabeta_loop self d mx rest (max alpha curr) beta (max hi curr)
         (if hi < curr then Flat m else best) s' = (Inr r, t)"
    "\<not> mx \<Longrightarrow> min hi curr \<le> alpha \<Longrightarrow> r = (curr, Flat m) \<and> t = s'"
    "\<not> mx \<Longrightarrow> \<not> min hi curr \<le> alpha \<Longrightarrow>
       alphabeta_loop self d mx rest alpha (min beta curr) (min hi curr)
         (if curr < hi then Nested m best else best) s' = (Inr r, t)"
proof -
  obtain rc s' where child: "alphabeta self b (d - 1) alpha beta (\<not> mx) (forecast s) = (rc, s')"
    by (cases "alphabeta self b (d - 1) alpha beta (\<not> mx) (forecast s)")
  show ?thesis
  proof (cases rc)
    case (Inl e)
    with assms child show ?thesis by simp
  next
    case (Inr sm)
    obtain curr cm where sm: "sm = (curr, cm)" by (cases sm)
    have mm: "max hi curr = (if hi < curr then curr else hi)"
         "min hi curr = (if curr < hi then curr else hi)"
      by (auto simp: max_def min_def)
    show ?thesis
    proof (rule that[of curr cm s'])
      show "alphabeta self b (d - 1) alpha beta (\<not> mx) (forecast s) = (Inr (curr, cm), s')"
        using child Inr sm by simp
    qed (use assms child Inr sm mm in \<open>auto simp: Let_def split: if_splits\<close>)
  qed
qed

lemma minimax_InrE:
  assumes "minimax self game d mx s = (Inr r, t)"
  obtains (leaf) v where "d = 0 \<or> succs game = []" "score self game (handle self) = Inr v"
      "r = (v, sentinel)"
  | (node) "d \<noteq> 0" "succs game \<noteq> []"
      "minimax_loop self d mx (succs game) (if mx then NegInf else PosInf) sentinel (tick s)
         = (Inr r, t)"
  using assms
  by (auto simp: minimax.simps split: option.splits if_splits sum.splits)

lemma alphabeta_InrE:
  assumes "alphabeta self game d alpha beta mx s = (Inr r, t)"
  obtains (leaf) v where "d = 0 \<or> succs game = []" "score self game (handle self) = Inr v"
      "r = (v, sentinel)"
  | (node) "d \<noteq> 0" "succs game \<noteq> []"
      "alphabeta_loop self d mx (succs game) alpha beta (if mx then NegInf else PosInf)
         sentinel (tick s) = (Inr r, t)"
  using assms
  by (auto simp: alphabeta.simps split: option.splits if_splits sum.splits)

text \<open>
  The running best of \<open>minimax\<close> only improves, and the move changes only with it.
\<close>

lemma minimax_loop_mono:
  "minimax_loop self d mx cs hm bm s = (Inr (w, mv), t) \<Longrightarrow>
   (mx \<longrightarrow> hm \<le> w) \<and> (\<not> mx \<longrightarrow> w \<le> hm)"
proof (induction cs arbitrary: hm bm s)
  case Nil
  then show ?case by simp
next
  case (Cons c cs)
  obtain m b where c: "c = (m, b)" by (cases c)
  from Cons.prems[unfolded c] show ?case
  proof (rule minimax_loop_ConsE)
    fix curr cm s'
    assume "mx \<Longrightarrow> minimax_loop self d mx cs (max hm curr)
            (if hm < curr then Flat m else bm) s' = (Inr (w, mv), t)"
      and "\<not> mx \<Longrightarrow> minimax_loop self d mx cs (min hm curr)
            (if curr < hm then Flat m else bm) s' = (Inr (w, mv), t)"
    then show ?thesis using Cons.IH by (cases mx) fastforce+
  qed
qed


lemma alphabeta_loop_max_mono:
  "alphabeta_loop self d True cs alpha beta hi best s = (Inr (v, mv), t) \<Longrightarrow> hi < beta \<Longrightarrow>
   hi \<le> v \<and> (v = hi \<longrightarrow> mv = best)"
proof (induction cs arbitrary: alpha hi best s)
  case Nil
  then show ?case by simp
next
  case (Cons c cs)
  obtain m b where c: "c = (m, b)" by (cases c)
  from Cons.prems(1)[unfolded c] obtain curr cm s' where
    cut: "beta \<le> max hi curr \<Longrightarrow> (v, mv) = (curr, Flat m) \<and> t = s'" and
    rest: "\<not> beta \<le> max hi curr \<Longrightarrow>
       alphabeta_loop self d True cs (max alpha curr) beta (max hi curr)
         (if hi < curr then Flat m else best) s' = (Inr (v, mv), t)"
    by (rule alphabeta_loop_ConsE) auto
  show ?case
  proof (cases "beta \<le> max hi curr")
    case True
    then show ?thesis using cut Cons.prems(2) by (auto simp: max_def split: if_splits)
  next
    case False
    then have lt: "max hi curr < beta" using linorder_not_le by blast
    from Cons.IH[OF rest[OF False] lt]
    show ?thesis by (auto simp: max_def split: if_splits)
  qed
qed

lemma alphabeta_loop_min_mono:
  "alphabeta_loop self d False cs alpha beta hi best s = (Inr (v, mv), t) \<Longrightarrow> alpha < hi \<Longrightarrow>
   v \<le> hi"
proof (induction cs arbitrary: beta hi best s)
  case Nil
  then show ?case by simp
next
  case (Cons c cs)
  obtain m b where c: "c = (m, b)" by (cases c)
  from Cons.prems(1)[unfolded c] obtain curr cm s' where
    cut: "min hi curr \<le> alpha \<Longrightarrow> (v, mv) = (curr, Flat m) \<and> t = s'" and
    rest: "\<not> min hi curr \<le> alpha \<Longrightarrow>
       alphabeta_loop self d False cs alpha (min beta curr) (min hi curr)
         (if curr < hi then Nested m best else best) s' = (Inr (v, mv), t)"
    by (rule alphabeta_loop_ConsE) auto
  show ?case
  proof (cases "min hi curr \<le> alpha")
    case True
    then show ?thesis using cut Cons.prems(2) by (auto simp: min_def split: if_splits)
  next
    case False
    then have lt: "alpha < min hi curr" using linorder_not_le by blast
    have "v \<le> min hi curr" using Cons.IH[OF rest[OF False] lt] .
    then show ?thesis by simp
  qed
qed

text \<open>
  A loop over \<open>pre @ rest\<close> whose part over \<open>pre\<close> ends normally, and in \<open>alphabeta\<close>
  without a cutoff, goes on over \<open>rest\<close> with the accumulators and the trace the part
  over \<open>pre\<close> has left; so a call at an internal node reaches each of its moves that way.
\<close>

lemma minimax_loop_append:
  "minimax_loop self d mx pre hm bm s = (Inr (hp, bp), u) \<Longrightarrow>
   minimax_loop self d mx (pre @ rest) hm bm s = minimax_loop self d mx rest hp bp u"
proof (induction pre arbitrary: hm bm s)
  case Nil
  then show ?case by simp
next
  case (Cons c pre)
  obtain m b where c: "c = (m, b)" by (cases c)
  from Cons.prems[unfolded c] obtain curr cm s' where
    child: "minimax self b (d - 1) (\<not> mx) (forecast s) = (Inr (curr, cm), s')" and
    r1: "mx \<Longrightarrow> minimax_loop self d mx pre (max hm curr)
            (if hm < curr then Flat m else bm) s' = (Inr (hp, bp), u)" and
    r2: "\<not> mx \<Longrightarrow> minimax_loop self d mx pre (min hm curr)
            (if curr < hm then Flat m else bm) s' = (Inr (hp, bp), u)"
    by (rule minimax_loop_ConsE) auto
  have mm: "max hm curr = (if hm < curr then curr else hm)"
           "min hm curr = (if curr < hm then curr else hm)"
    by (auto simp: max_def min_def)
  show ?case
  proof (cases mx)
    case True
    show ?thesis
      using Cons.IH[OF r1[OF True]] child True mm by (auto simp: c)
  next
    case False
    show ?thesis
      using Cons.IH[OF r2[OF False]] child False mm by (auto simp: c)
  qed
qed

lemma alphabeta_loop_max_append:
  assumes "alphabeta_loop self d True pre alpha beta hi best s = (Inr (hp, bp), u)"
    and "hp < beta" and "hi < beta" and "hi \<le> alpha"
  shows "alphabeta_loop self d True (pre @ rest) alpha beta hi best s
           = alphabeta_loop self d True rest (max alpha hp) beta hp bp u"
  using assms
proof (induction pre arbitrary: alpha hi best s)
  case Nil
  then show ?case by (simp add: max_def)
next
  case (Cons c pre)
  obtain m b where c: "c = (m, b)" by (cases c)
  from Cons.prems(1)[unfolded c] obtain curr cm s' where
    child: "alphabeta self b (d - 1) alpha beta False (forecast s) = (Inr (curr, cm), s')" and
    cut: "beta \<le> max hi curr \<Longrightarrow> (hp, bp) = (curr, Flat m) \<and> u = s'" and
    r: "\<not> beta \<le> max hi curr \<Longrightarrow>
       alphabeta_loop self d True pre (max alpha curr) beta (max hi curr)
         (if hi < curr then Flat m else best) s' = (Inr (hp, bp), u)"
    by (rule alphabeta_loop_ConsE) auto
  have nocut: "\<not> beta \<le> max hi curr"
  proof
    assume b: "beta \<le> max hi curr"
    then have "hp = curr" using cut by simp
    with b Cons.prems(2,3) show False by (auto simp: max_def split: if_splits)
  qed
  then have lt: "max hi curr < beta" using linorder_not_le by blast
  have le: "max hi curr \<le> max alpha curr" using Cons.prems(4) by (auto simp: max_def)
  have step: "alphabeta_loop self d True ((m, b) # xs) alpha beta hi best s
         = alphabeta_loop self d True xs (max alpha curr) beta (max hi curr)
             (if hi < curr then Flat m else best) s'" for xs
    using child nocut by (auto simp: Let_def max_def)
  have "max hi curr \<le> hp" using alphabeta_loop_max_mono[OF r[OF nocut] lt] by simp
  then have "curr \<le> hp" by simp
  then have w: "max (max alpha curr) hp = max alpha hp" by (auto simp: max_def)
  have "alphabeta_loop self d True (pre @ rest) (max alpha curr) beta (max hi curr)
          (if hi < curr then Flat m else best) s'
        = alphabeta_loop self d True rest (max alpha hp) beta hp bp u"
    using Cons.IH[OF r[OF nocut] Cons.prems(2) lt le] unfolding w .
  then show ?case unfolding c using step[of "pre @ rest"] by simp
qed

lemma alphabeta_loop_min_append:
  assumes "alphabeta_loop self d False pre alpha beta hi best s = (Inr (hp, bp), u)"
    and "alpha < hp" and "alpha < hi" and "beta \<le> hi"
  shows "alphabeta_loop self d False (pre @ rest) alpha beta hi best s
           = alphabeta_loop self d False rest alpha (min beta hp) hp bp u"
  using assms
proof (induction pre arbitrary: beta hi best s)
  case Nil
  then show ?case by (simp add: min_def)
next
  case (Cons c pre)
  obtain m b where c: "c = (m, b)" by (cases c)
  from Cons.prems(1)[unfolded c] obtain curr cm s' where
    child: "alphabeta self b (d - 1) alpha beta True (forecast s) = (Inr (curr, cm), s')" and
    cut: "min hi curr \<le> alpha \<Longrightarrow> (hp, bp) = (curr, Flat m) \<and> u = s'" and
    r: "\<not> min hi curr \<le> alpha \<Longrightarrow>
       alphabeta_loop self d False pre alpha (min beta curr) (min hi curr)
         (if curr < hi then Nested m best else best) s' = (Inr (hp, bp), u)"
    by (rule alphabeta_loop_ConsE) auto
  have nocut: "\<not> min hi curr \<le> alpha"
  proof
    assume b: "min hi curr \<le> alpha"
    then have "hp = curr" using cut by simp
    with b Cons.prems(2,3) show False by (auto simp: min_def split: if_splits)
  qed
  then have lt: "alpha < min hi curr" using linorder_not_le by blast
  have le: "min beta curr \<le> min hi curr" using Cons.prems(4) by (auto simp: min_def)
  have step: "alphabeta_loop self d False ((m, b) # xs) alpha beta hi best s
         = alphabeta_loop self d False xs alpha (min beta curr) (min hi curr)
             (if curr < hi then Nested m best else best) s'" for xs
    using child nocut by (auto simp: Let_def min_def)
  have "hp \<le> min hi curr" using alphabeta_loop_min_mono[OF r[OF nocut] lt] .
  then have "hp \<le> curr" by simp
  then have w: "min (min beta curr) hp = min beta hp" by (auto simp: min_def)
  have "alphabeta_loop self d False (pre @ rest) alpha (min beta curr) (min hi curr)
          (if curr < hi then Nested m best else best) s'
        = alphabeta_loop self d False rest alpha (min beta hp) hp bp u"
    using Cons.IH[OF r[OF nocut] Cons.prems(2) lt le] unfolding w .
  then show ?case unfolding c using step[of "pre @ rest"] by simp
qed

lemma minimax_reaches:
  assumes "time_left self = Some clock" and "\<not> clock (time_calls s) < TIMER_THRESHOLD self"
    and "depth \<noteq> 0" and "succs game = pre @ (m, b) # rest"
    and "minimax_loop self depth mx pre (if mx then NegInf else PosInf) sentinel (tick s)
           = (Inr (hp, bp), u)"
  shows "minimax self game depth mx s = minimax_loop self depth mx ((m, b) # rest) hp bp u"
proof -
  have "minimax self game depth mx s
      = minimax_loop self depth mx (pre @ (m, b) # rest) (if mx then NegInf else PosInf)
          sentinel (tick s)"
    using assms(1-4) by (simp add: minimax.simps)
  then show ?thesis using minimax_loop_append[OF assms(5)] by simp
qed

lemma alphabeta_reaches_max:
  assumes "time_left self = Some clock" and "\<not> clock (time_calls s) < TIMER_THRESHOLD self"
    and "depth \<noteq> 0" and "succs game = pre @ (m, b) # rest"
    and "alphabeta_loop self depth True pre alpha beta NegInf sentinel (tick s)
           = (Inr (hp, bp), u)"
    and "pre = [] \<or> hp < beta"
  shows "alphabeta self game depth alpha beta True s
           = alphabeta_loop self depth True ((m, b) # rest) (max alpha hp) beta hp bp u"
proof -
  have call: "alphabeta self game depth alpha beta True s
      = alphabeta_loop self depth True (pre @ (m, b) # rest) alpha beta NegInf sentinel (tick s)"
    using assms(1-4) by (simp add: alphabeta.simps)
  show ?thesis
  proof (cases "pre = []")
    case True
    then have "hp = NegInf" "bp = sentinel" "u = tick s" using assms(5) by simp_all
    then show ?thesis using call True by (simp add: max_def)
  next
    case False
    then have lt: "hp < beta" using assms(6) by simp
    have "NegInf < beta" using lt by (cases beta) auto
    then show ?thesis
      using call alphabeta_loop_max_append[OF assms(5) lt] by simp
  qed
qed

lemma alphabeta_reaches_min:
  assumes "time_left self = Some clock" and "\<not> clock (time_calls s) < TIMER_THRESHOLD self"
    and "depth \<noteq> 0" and "succs game = pre @ (m, b) # rest"
    and "alphabeta_loop self depth False pre alpha beta PosInf sentinel (tick s)
           = (Inr (hp, bp), u)"
    and "pre = [] \<or> alpha < hp"
  shows "alphabeta self game depth alpha beta False s
           = alphabeta_loop self depth False ((m, b) # rest) alpha (min beta hp) hp bp u"
proof -
  have call: "alphabeta self game depth alpha beta False s
      = alphabeta_loop self depth False (pre @ (m, b) # rest) alpha beta PosInf sentinel (tick s)"
    using assms(1-4) by (simp add: alphabeta.simps)
  show ?thesis
  proof (cases "pre = []")
    case True
    then have "hp = PosInf" "bp = sentinel" "u = tick s" using assms(5) by simp_all
    then show ?thesis using call True by (simp add: min_def)
  next
    case False
    then have lt: "alpha < hp" using assms(6) by simp
    have "alpha < PosInf" using lt by (cases alpha) auto
    then show ?thesis
      using call alphabeta_loop_min_append[OF assms(5) lt] by simp
  qed
qed

section \<open>The heuristics at the extremes\<close>

text \<open>
  Claim C2, as the code has it. On a board of non-zero width, each of the three
  heuristics returns \<open>+inf\<close> whenever the opponent of \<open>player\<close> has no legal move,
  whatever \<open>player\<close> can do; and each returns \<open>-inf\<close> whenever \<open>player\<close> has no legal
  move while the opponent has at least one. The test for the opponent comes first in
  all three (lines 63, 97 and 141).
\<close>

theorem heuristics_extremes:
  assumes "width game \<noteq> 0"
  shows "(get_legal_moves_of game (get_opponent game player) = [] \<longrightarrow>
            calc_ratio_of_moves game player = Inr PosInf
          \<and> calc_move_diff_with_spaces game player = Inr PosInf
          \<and> calc_move_diff_from_center game player = Inr PosInf)
       \<and> (get_legal_moves_of game player = []
            \<and> get_legal_moves_of game (get_opponent game player) \<noteq> [] \<longrightarrow>
            calc_ratio_of_moves game player = Inr NegInf
          \<and> calc_move_diff_with_spaces game player = Inr NegInf
          \<and> calc_move_diff_from_center game player = Inr NegInf)"
proof -
  let ?c = "(width game div 2, height game div 2)"
  obtain r1 where r1: "center_loop ?c (width game) (get_legal_moves_of game player) 0 = Inr r1"
    using center_loop_returns[OF assms] by blast
  obtain r2 where r2: "center_loop ?c (width game)
      (get_legal_moves_of game (get_opponent game player)) 0 = Inr r2"
    using center_loop_returns[OF assms] by blast
  show ?thesis
    using r1 r2
    by (simp add: calc_ratio_of_moves_def calc_move_diff_with_spaces_def
        calc_move_diff_from_center_def Let_def)
qed

text \<open>
  The theorem at \<open>lost_after\<close>: seen from player 2 the opponent is trapped, seen from
  player 1 the player is trapped and the opponent is not.
\<close>

theorem heuristics_extremes_witness:
  "width lost_after \<noteq> 0
   \<and> get_legal_moves_of lost_after (get_opponent lost_after Player2) = []
   \<and> calc_ratio_of_moves lost_after Player2 = Inr PosInf
   \<and> get_legal_moves_of lost_after Player1 = []
   \<and> get_legal_moves_of lost_after (get_opponent lost_after Player1) \<noteq> []
   \<and> calc_move_diff_from_center lost_after Player1 = Inr NegInf"
  using heuristics_extremes [of lost_after Player2] heuristics_extremes [of lost_after Player1]
  by (simp add: lost_after_def get_legal_moves_of_def get_legal_moves_def get_opponent_def)

text \<open>
  Claim C2 as stated fails where neither player can move: player 1 has no legal move
  on \<open>both_trapped\<close>, and all three heuristics return \<open>+inf\<close>, not \<open>-inf\<close>.
\<close>

theorem heuristics_both_trapped:
  "get_legal_moves_of both_trapped Player1 = []
   \<and> calc_ratio_of_moves both_trapped Player1 = Inr PosInf
   \<and> calc_move_diff_with_spaces both_trapped Player1 = Inr PosInf
   \<and> calc_move_diff_from_center both_trapped Player1 = Inr PosInf
   \<and> Inr PosInf \<noteq> (Inr NegInf :: exn + pyfloat)"
  by (simp add: both_trapped_def calc_ratio_of_moves_def calc_move_diff_with_spaces_def
      calc_move_diff_from_center_def get_legal_moves_of_def get_legal_moves_def
      get_opponent_def Let_def)

section \<open>Leaves of the search\<close>

text \<open>
  Claim C6. When the clock reading at entry is not below the threshold, and the
  remaining depth is 0 or the board has no legal move, \<open>minimax\<close> and \<open>alphabeta\<close>
  return what the heuristic returns for the position, paired with the sentinel
  \<open>(-1, -1)\<close>. The run has then read the clock once and called the heuristic once
  more than before, and has asked for no forecast: no child was searched.
\<close>

theorem search_leaf_returns_heuristic:
  assumes "time_left self = Some clock"
    and "\<not> clock (time_calls s) < TIMER_THRESHOLD self"
    and "depth = 0 \<or> succs game = []"
  shows "minimax self game depth maximizing_player s =
           (case score self game (handle self) of
              Inl e \<Rightarrow> Inl e | Inr v \<Rightarrow> Inr (v, Flat (-1, -1)),
            s\<lparr>time_calls := Suc (time_calls s), score_calls := Suc (score_calls s)\<rparr>)
       \<and> alphabeta self game depth alpha beta maximizing_player s =
           (case score self game (handle self) of
              Inl e \<Rightarrow> Inl e | Inr v \<Rightarrow> Inr (v, Flat (-1, -1)),
            s\<lparr>time_calls := Suc (time_calls s), score_calls := Suc (score_calls s)\<rparr>)"
  using assms
  by (auto simp: minimax.simps alphabeta.simps sentinel_def tick_def scored_def split: sum.splits)

text \<open>
  The theorem at \<open>after_a\<close> with depth 0: the clock reads 200 ms, the move ratio
  there is 3.
\<close>

theorem search_leaf_returns_heuristic_witness:
  "time_left deepening_player = Some (\<lambda>n. 200 - 10 * real n)
   \<and> \<not> (200 - 10 * real (time_calls start)) < TIMER_THRESHOLD deepening_player
   \<and> ((0 :: int) = 0 \<or> succs after_a = [])
   \<and> minimax deepening_player after_a 0 False start
      = (Inr (Fin 3, Flat (-1, -1)), \<lparr>time_calls = 1, score_calls = 1, forecast_calls = 0\<rparr>)
   \<and> alphabeta deepening_player after_a 0 NegInf PosInf False start
      = (Inr (Fin 3, Flat (-1, -1)), \<lparr>time_calls = 1, score_calls = 1, forecast_calls = 0\<rparr>)"
proof -
  have h1: "time_left deepening_player = Some (\<lambda>n. 200 - 10 * real n)"
    by (simp add: deepening_player_def)
  have h2: "\<not> (\<lambda>n. 200 - 10 * real n) (time_calls start) < TIMER_THRESHOLD deepening_player"
    by (simp add: deepening_player_def start_def)
  have h3: "(0 :: int) = 0 \<or> succs after_a = []" by simp
  have sc: "score deepening_player after_a (handle deepening_player) = Inr (Fin 3)"
    by (simp add: ex_defs)
  show ?thesis
    using h1 h2 h3 search_leaf_returns_heuristic[OF h1 h2 h3, of False NegInf PosInf]
    by (simp add: sc start_def)
qed

section \<open>No legal moves at the top\<close>

text \<open>
  Claim C9. With an empty list of legal moves \<open>get_move\<close> returns the sentinel
  \<open>(-1, -1)\<close> and leaves the trace as it was: no clock reading, no call of the
  heuristic, no forecast, whatever the board and the configuration.
\<close>

theorem get_move_no_legal_moves:
  "get_move self game [] clock s = Some (Inr (Flat (-1, -1)), s)"
  by (simp add: get_move_def sentinel_def)

section \<open>The timeout guard\<close>

text \<open>
  The readings of the clock during a search: every call reads it first, an exception
  of a child ends the loop at once, and after a reading below the threshold nothing
  else is read.
\<close>

lemma clock_guard_refl: "clock_guard self clock s False s"
  by (simp add: clock_guard_def)

lemma clock_guard_tick:
  "clock_guard self clock s (clock (time_calls s) < TIMER_THRESHOLD self) (tick s)"
  by (simp add: clock_guard_def)

lemma clock_guard_trans:
  assumes "clock_guard self clock s False t" and "clock_guard self clock t e u"
  shows "clock_guard self clock s e u"
proof -
  have le: "time_calls s \<le> time_calls t" "time_calls t \<le> time_calls u"
    using assms by (simp_all add: clock_guard_def)
  have last1: "time_calls s < time_calls t \<Longrightarrow> \<not> clock (time_calls t - 1) < TIMER_THRESHOLD self"
    using assms(1) by (simp add: clock_guard_def)
  have early: "\<not> clock k < TIMER_THRESHOLD self"
    if "time_calls s \<le> k" "Suc k < time_calls u" for k
  proof (cases "Suc k < time_calls t")
    case True
    then show ?thesis using assms(1) that by (simp add: clock_guard_def)
  next
    case False
    show ?thesis
    proof (cases "Suc k = time_calls t")
      case True
      then have "time_calls t - 1 = k" "time_calls s < time_calls t" using that by arith+
      then show ?thesis using last1 by simp
    next
      case False
      with \<open>\<not> Suc k < time_calls t\<close> have "time_calls t \<le> k" by simp
      then show ?thesis using assms(2) that by (simp add: clock_guard_def)
    qed
  qed
  have iff: "e \<longleftrightarrow> time_calls s < time_calls u \<and> clock (time_calls u - 1) < TIMER_THRESHOLD self"
  proof (cases "time_calls t < time_calls u")
    case True
    then show ?thesis using assms(2) le by (auto simp: clock_guard_def)
  next
    case False
    then have eq: "time_calls t = time_calls u" using le by simp
    then have "\<not> e" using assms(2) by (simp add: clock_guard_def)
    then show ?thesis using last1 eq by auto
  qed
  show ?thesis using le early iff by (simp add: clock_guard_def)
qed

lemma clock_guard_cong:
  "time_calls s = time_calls s0 \<Longrightarrow> time_calls t = time_calls t0 \<Longrightarrow>
   clock_guard self clock s e t = clock_guard self clock s0 e t0"
  by (simp add: clock_guard_def)

lemma minimax_clock_guard:
  shows "minimax self game depth mx s = (r, s') \<Longrightarrow> time_left self = Some clock \<Longrightarrow>
           (\<And>b. score self b (handle self) \<noteq> Inl Timeout) \<Longrightarrow>
           clock_guard self clock s (r = Inl Timeout) s' \<and> time_calls s < time_calls s'"
    and "minimax_loop self depth mx cs hi best s = (r, s') \<Longrightarrow> time_left self = Some clock \<Longrightarrow>
           (\<And>b. score self b (handle self) \<noteq> Inl Timeout) \<Longrightarrow>
           clock_guard self clock s (r = Inl Timeout) s'"
proof (induction self game depth mx s and self depth mx cs hi best s
       arbitrary: r s' and r s' rule: minimax_minimax_loop.induct)
  case (1 self game depth mx s)
  show ?case
  proof (cases "clock (time_calls s) < TIMER_THRESHOLD self")
    case True
    then have "r = Inl Timeout" "s' = tick s"
      using "1.prems" by (simp_all add: minimax.simps)
    then show ?thesis using True clock_guard_tick[of self clock s] by simp
  next
    case False
    note ok = this
    have step: "clock_guard self clock s False (tick s)"
      using clock_guard_tick[of self clock s] ok by simp
    show ?thesis
    proof (cases "depth = 0 \<or> succs game = []")
      case True
      then have "s' = scored (tick s)" "r \<noteq> Inl Timeout"
        using "1.prems"(1) ok "1.prems"(2) "1.prems"(3)[of game]
        by (auto simp: minimax.simps split: sum.splits)
      then show ?thesis
        using step clock_guard_cong[of s s "scored (tick s)" "tick s" self clock False] by simp
    next
      case False
      then have loop: "minimax_loop self depth mx (succs game)
          (if mx then NegInf else PosInf) sentinel (tick s) = (r, s')"
        using "1.prems"(1) ok "1.prems"(2) by (simp add: minimax.simps)
      have "clock_guard self clock (tick s) (r = Inl Timeout) s'"
        using "1.IH"[OF "1.prems"(2) ok False loop "1.prems"(2) "1.prems"(3)] .
      then show ?thesis
        using clock_guard_trans[OF step] by (auto simp: clock_guard_def)
    qed
  qed
next
  case (2 self depth mx hi best s)
  then show ?case using clock_guard_refl[of self clock s] by auto
next
  case (3 self depth mx next_move temp_board rest hi best s)
  obtain rc t where child: "minimax self temp_board (depth - 1) (\<not> mx) (forecast s) = (rc, t)"
    by (cases "minimax self temp_board (depth - 1) (\<not> mx) (forecast s)")
  have cg: "clock_guard self clock (forecast s) (rc = Inl Timeout) t"
    using "3.IH"(1)[OF child "3.prems"(2) "3.prems"(3)] by simp
  then have cg': "clock_guard self clock s (rc = Inl Timeout) t"
    using clock_guard_cong[of s "forecast s" t t self clock] by simp
  show ?case
  proof (cases rc)
    case (Inl e)
    then have "r = Inl e" "s' = t" using "3.prems"(1) child by simp_all
    then show ?thesis using cg' Inl by simp
  next
    case (Inr sm)
    obtain curr cm where sm: "sm = (curr, cm)" by (cases sm)
    have c: "(Inr (curr, cm), t) = minimax self temp_board (depth - 1) (\<not> mx) (forecast s)"
      using child Inr sm by simp
    have first: "clock_guard self clock s False t" using cg' Inr by simp
    have "clock_guard self clock t (r = Inl Timeout) s'"
    proof (cases mx)
      case True
      show ?thesis
      proof (cases "hi < curr")
        case True
        have "minimax_loop self depth mx rest curr (Flat next_move) t = (r, s')"
          using "3.prems"(1) child Inr sm \<open>mx\<close> True by simp
        then show ?thesis
          using "3.IH"(2)[OF c refl refl \<open>mx\<close> True _ "3.prems"(2) "3.prems"(3)] by simp
      next
        case False
        have "minimax_loop self depth mx rest hi best t = (r, s')"
          using "3.prems"(1) child Inr sm \<open>mx\<close> False by simp
        then show ?thesis
          using "3.IH"(3)[OF c refl refl \<open>mx\<close> False _ "3.prems"(2) "3.prems"(3)] by simp
      qed
    next
      case False
      show ?thesis
      proof (cases "curr < hi")
        case True
        have "minimax_loop self depth mx rest curr (Flat next_move) t = (r, s')"
          using "3.prems"(1) child Inr sm \<open>\<not> mx\<close> True by simp
        then show ?thesis
          using "3.IH"(4)[OF c refl refl \<open>\<not> mx\<close> True _ "3.prems"(2) "3.prems"(3)] by simp
      next
        case F2: False
        have "minimax_loop self depth mx rest hi best t = (r, s')"
          using "3.prems"(1) child Inr sm \<open>\<not> mx\<close> F2 by simp
        then show ?thesis
          using "3.IH"(5)[OF c refl refl \<open>\<not> mx\<close> F2 _ "3.prems"(2) "3.prems"(3)] by simp
      qed
    qed
    then show ?thesis using clock_guard_trans[OF first] by simp
  qed
qed

lemma alphabeta_clock_guard:
  shows "alphabeta self game depth alpha beta mx s = (r, s') \<Longrightarrow> time_left self = Some clock \<Longrightarrow>
           (\<And>b. score self b (handle self) \<noteq> Inl Timeout) \<Longrightarrow>
           clock_guard self clock s (r = Inl Timeout) s' \<and> time_calls s < time_calls s'"
    and "alphabeta_loop self depth mx cs alpha beta hi best s = (r, s') \<Longrightarrow>
           time_left self = Some clock \<Longrightarrow>
           (\<And>b. score self b (handle self) \<noteq> Inl Timeout) \<Longrightarrow>
           clock_guard self clock s (r = Inl Timeout) s'"
proof (induction self game depth alpha beta mx s and self depth mx cs alpha beta hi best s
       arbitrary: r s' and r s' rule: alphabeta_alphabeta_loop.induct)
  case (1 self game depth alpha beta mx s)
  show ?case
  proof (cases "clock (time_calls s) < TIMER_THRESHOLD self")
    case True
    then have "r = Inl Timeout" "s' = tick s"
      using "1.prems" by (simp_all add: alphabeta.simps)
    then show ?thesis using True clock_guard_tick[of self clock s] by simp
  next
    case False
    note ok = this
    have step: "clock_guard self clock s False (tick s)"
      using clock_guard_tick[of self clock s] ok by simp
    show ?thesis
    proof (cases "depth = 0 \<or> succs game = []")
      case True
      then have "s' = scored (tick s)" "r \<noteq> Inl Timeout"
        using "1.prems"(1) ok "1.prems"(2) "1.prems"(3)[of game]
        by (auto simp: alphabeta.simps split: sum.splits)
      then show ?thesis
        using step clock_guard_cong[of s s "scored (tick s)" "tick s" self clock False] by simp
    next
      case False
      then have loop: "alphabeta_loop self depth mx (succs game) alpha beta
          (if mx then NegInf else PosInf) sentinel (tick s) = (r, s')"
        using "1.prems"(1) ok "1.prems"(2) by (simp add: alphabeta.simps)
      have "clock_guard self clock (tick s) (r = Inl Timeout) s'"
        using "1.IH"[OF "1.prems"(2) ok False loop "1.prems"(2) "1.prems"(3)] .
      then show ?thesis
        using clock_guard_trans[OF step] by (auto simp: clock_guard_def)
    qed
  qed
next
  case (2 self depth mx alpha beta hi best s)
  then show ?case using clock_guard_refl[of self clock s] by auto
next
  case (3 self depth mx next_move temp_board rest alpha beta hi best s)
  obtain rc t where child:
    "alphabeta self temp_board (depth - 1) alpha beta (\<not> mx) (forecast s) = (rc, t)"
    by (cases "alphabeta self temp_board (depth - 1) alpha beta (\<not> mx) (forecast s)")
  have cg: "clock_guard self clock (forecast s) (rc = Inl Timeout) t"
    using "3.IH"(1)[OF child "3.prems"(2) "3.prems"(3)] by simp
  then have cg': "clock_guard self clock s (rc = Inl Timeout) t"
    using clock_guard_cong[of s "forecast s" t t self clock] by simp
  show ?case
  proof (cases rc)
    case (Inl e)
    then have "r = Inl e" "s' = t" using "3.prems"(1) child by simp_all
    then show ?thesis using cg' Inl by simp
  next
    case (Inr sm)
    obtain curr cm where sm: "sm = (curr, cm)" by (cases sm)
    have c: "(Inr (curr, cm), t)
        = alphabeta self temp_board (depth - 1) alpha beta (\<not> mx) (forecast s)"
      using child Inr sm by simp
    have first: "clock_guard self clock s False t" using cg' Inr by simp
    have "clock_guard self clock t (r = Inl Timeout) s'"
    proof (cases mx)
      case True
      show ?thesis
      proof (cases "beta \<le> (if hi < curr then curr else hi)")
        case True
        then have "r = Inr (curr, Flat next_move)" "s' = t"
          using "3.prems"(1) child Inr sm \<open>mx\<close> by (simp_all add: Let_def)
        then show ?thesis using clock_guard_refl[of self clock t] by simp
      next
        case False
        have "alphabeta_loop self depth mx rest (max alpha curr) beta
            (if hi < curr then curr else hi) (if hi < curr then Flat next_move else best) t
            = (r, s')"
          using "3.prems"(1) child Inr sm \<open>mx\<close> False by (simp add: Let_def)
        then show ?thesis
          using "3.IH"(2)[OF c refl refl \<open>mx\<close> refl refl refl False _ "3.prems"(2) "3.prems"(3)]
          by simp
      qed
    next
      case False
      show ?thesis
      proof (cases "(if curr < hi then curr else hi) \<le> alpha")
        case True
        then have "r = Inr (curr, Flat next_move)" "s' = t"
          using "3.prems"(1) child Inr sm \<open>\<not> mx\<close> by (simp_all add: Let_def)
        then show ?thesis using clock_guard_refl[of self clock t] by simp
      next
        case F2: False
        have "alphabeta_loop self depth mx rest alpha (min beta curr)
            (if curr < hi then curr else hi)
            (if curr < hi then Nested next_move best else best) t = (r, s')"
          using "3.prems"(1) child Inr sm \<open>\<not> mx\<close> F2 by (simp add: Let_def)
        then show ?thesis
          using "3.IH"(3)[OF c refl refl \<open>\<not> mx\<close> refl refl refl F2 _ "3.prems"(2) "3.prems"(3)]
          by simp
      qed
    qed
    then show ?thesis using clock_guard_trans[OF first] by simp
  qed
qed

text \<open>
  Claim C7. Let the player hold a clock and let its heuristic never raise \<open>Timeout\<close>
  itself. Every call of \<open>minimax\<close> and of \<open>alphabeta\<close> reads the clock at its entry,
  before anything else. If that reading is below the threshold the call raises
  \<open>Timeout\<close> at once: the trace has one more reading and no heuristic call or forecast
  more. The call as a whole raises \<open>Timeout\<close> if and only if one of the readings taken
  during it, at its own entry or at the entry of a call below it, was under the
  threshold; that reading is then the last one, so the cancellation went up through
  every enclosing call without any further work. A call that raised returns no score
  and no move: its outcome is \<open>Inl Timeout\<close>, not an \<open>Inr\<close>.
\<close>

theorem timeout_guard:
  assumes "time_left self = Some clock"
    and "\<And>b. score self b (handle self) \<noteq> Inl Timeout"
    and "TIMER_THRESHOLD self = limit"
    and "minimax self game depth mx s = (r, s')"
    and "alphabeta self game depth alpha beta mx s = (r2, s2)"
  shows "(clock (time_calls s) < limit \<longrightarrow>
            (r, s') = (Inl Timeout, s\<lparr>time_calls := Suc (time_calls s)\<rparr>)
          \<and> (r2, s2) = (Inl Timeout, s\<lparr>time_calls := Suc (time_calls s)\<rparr>))
       \<and> (r = Inl Timeout \<longleftrightarrow> (\<exists>k. time_calls s \<le> k \<and> k < time_calls s' \<and> clock k < limit))
       \<and> (r2 = Inl Timeout \<longleftrightarrow> (\<exists>k. time_calls s \<le> k \<and> k < time_calls s2 \<and> clock k < limit))
       \<and> (\<forall>k. time_calls s \<le> k \<and> clock k < limit \<longrightarrow> time_calls s' \<le> Suc k \<and> time_calls s2 \<le> Suc k)
       \<and> time_calls s < time_calls s' \<and> time_calls s < time_calls s2"
proof -
  have g1: "clock_guard self clock s (r = Inl Timeout) s'" and l1: "time_calls s < time_calls s'"
    using minimax_clock_guard(1)[OF assms(4) assms(1) assms(2)] by simp_all
  have g2: "clock_guard self clock s (r2 = Inl Timeout) s2" and l2: "time_calls s < time_calls s2"
    using alphabeta_clock_guard(1)[OF assms(5) assms(1) assms(2)] by simp_all
  have entry: "(r, s') = (Inl Timeout, s\<lparr>time_calls := Suc (time_calls s)\<rparr>)
          \<and> (r2, s2) = (Inl Timeout, s\<lparr>time_calls := Suc (time_calls s)\<rparr>)"
    if "clock (time_calls s) < limit"
    using that assms by (simp add: minimax.simps alphabeta.simps tick_def)
  have last: "time_calls t \<le> Suc k"
    if "clock_guard self clock s e t" "time_calls s \<le> k" "clock k < limit" for e t k
    using that assms(3) unfolding clock_guard_def by (meson not_less)
  have iff: "e \<longleftrightarrow> (\<exists>k. time_calls s \<le> k \<and> k < time_calls t \<and> clock k < limit)"
    if g: "clock_guard self clock s e t" for e t
  proof
    assume e
    then have "time_calls s < time_calls t" "clock (time_calls t - 1) < limit"
      using g assms(3) by (simp_all add: clock_guard_def)
    then show "\<exists>k. time_calls s \<le> k \<and> k < time_calls t \<and> clock k < limit"
      by (intro exI[of _ "time_calls t - 1"]) auto
  next
    assume "\<exists>k. time_calls s \<le> k \<and> k < time_calls t \<and> clock k < limit"
    then obtain k where k: "time_calls s \<le> k" "k < time_calls t" "clock k < limit" by blast
    then have "time_calls t \<le> Suc k" using last[OF g] by simp
    with k have "time_calls t - 1 = k" "time_calls s < time_calls t" by arith+
    then show e using g k(3) assms(3) by (simp add: clock_guard_def)
  qed
  show ?thesis
    using entry iff[OF g1] iff[OF g2] last[OF g1] last[OF g2] l1 l2 by blast
qed

text \<open>
  The theorem on \<open>three_moves\<close>, one ply deep, from a trace with 18 readings taken:
  the readings 18 and 19 are 20 ms and 10 ms, the reading 20, at the entry of the
  second child, is 0 ms.
\<close>

theorem timeout_guard_witness:
  "time_left deepening_player = Some (\<lambda>n. 200 - 10 * real n)
   \<and> (\<forall>b. score deepening_player b (handle deepening_player) \<noteq> Inl Timeout)
   \<and> TIMER_THRESHOLD deepening_player = 3
   \<and> minimax deepening_player three_moves 1 True
        \<lparr>time_calls = 18, score_calls = 0, forecast_calls = 0\<rparr>
      = (Inl Timeout, \<lparr>time_calls = 21, score_calls = 1, forecast_calls = 2\<rparr>)
   \<and> alphabeta deepening_player three_moves 1 NegInf PosInf True
        \<lparr>time_calls = 18, score_calls = 0, forecast_calls = 0\<rparr>
      = (Inl Timeout, \<lparr>time_calls = 21, score_calls = 1, forecast_calls = 2\<rparr>)
   \<and> ((Inl Timeout :: outcome) = Inl Timeout \<longleftrightarrow>
        (\<exists>k. 18 \<le> k \<and> k < 21 \<and> 200 - 10 * real k < 3))
   \<and> (\<forall>k. \<not> (18 \<le> k \<and> 200 - 10 * real k < 3 \<and> Suc k < 21))"
proof -
  let ?s = "\<lparr>time_calls = 18, score_calls = 0, forecast_calls = 0\<rparr>"
  let ?t = "\<lparr>time_calls = 21, score_calls = 1, forecast_calls = 2\<rparr>"
  have h1: "time_left deepening_player = Some (\<lambda>n. 200 - 10 * real n)"
    by (simp add: deepening_player_def)
  have h2: "score deepening_player b (handle deepening_player) \<noteq> Inl Timeout" for b
    by (simp add: deepening_player_def ratio_never_timeout)
  have h3: "TIMER_THRESHOLD deepening_player = 3" by (simp add: deepening_player_def)
  have h4: "minimax deepening_player three_moves 1 True ?s = (Inl Timeout, ?t)"
    by (simp add: ex_defs)
  have h5: "alphabeta deepening_player three_moves 1 NegInf PosInf True ?s = (Inl Timeout, ?t)"
    by (simp add: ex_defs)
  note th = timeout_guard[OF h1 h2 h3 h4 h5]
  show ?thesis using h1 h2 h3 h4 h5 th by simp
qed

section \<open>Where the timeout is caught\<close>

lemma iterative_deepening_no_timeout:
  assumes "iterative_deepening self game depth best_move best_score s = Some y"
  shows "fst y \<noteq> Inl Timeout"
proof (rule iterative_deepening.raw_induct
    [where P = "\<lambda>_ _ _ _ _ _ y. fst y \<noteq> Inl Timeout", OF _ assms], goal_cases)
  case (1 f self game depth best_move best_score s y)
  show ?case
  proof (cases "search_call self game depth s")
    case None
    with 1(2) show ?thesis by auto
  next
    case (Some res)
    obtain out t where res: "res = (out, t)" by (cases res)
    show ?thesis
    proof (cases out)
      case (Inl e)
      with 1(2) Some res show ?thesis by (auto split: if_splits)
    next
      case (Inr sm)
      obtain sc mv where sm: "sm = (sc, mv)" by (cases sm)
      from 1(2) Some res Inr sm
      have "f self game (depth + 1) mv sc t = Some y
          \<or> f self game (depth + 1) best_move best_score t = Some y"
        by (simp split: if_splits)
      then show ?thesis using 1(1) by blast
    qed
  qed
qed

text \<open>
  Claim C8. Whatever \<open>get_move\<close> returns, it is not the exception \<open>Timeout\<close>: both
  modes catch it at the call of the search. Inside the recursion nothing catches it.
  Take a call of \<open>minimax\<close> or of \<open>alphabeta\<close> at an internal node, with a clock
  reading at entry that is not below the threshold, and any legal move \<open>next_move\<close>,
  with the moves \<open>pre\<close> before it and \<open>rest\<close> after it. When the loop over \<open>pre\<close> has
  ended normally (in \<open>alphabeta\<close> without a cutoff) and the search of the child of
  \<open>next_move\<close> raises \<open>Timeout\<close>, the call itself raises \<open>Timeout\<close>, in the trace the
  child left. So the exception of a call passes through every call above it, up to
  the one \<open>get_move\<close> made.
\<close>

theorem timeout_never_leaves_get_move:
  "(get_move self0 game0 legal_moves clock0 s0 = Some (r, s0') \<longrightarrow> r \<noteq> Inl Timeout)
   \<and> (time_left self = Some clock \<and> \<not> clock (time_calls s) < TIMER_THRESHOLD self
        \<and> depth \<noteq> 0 \<and> succs game = pre @ (next_move, temp_board) # rest \<longrightarrow>
      (minimax_loop self depth mx pre (if mx then NegInf else PosInf) (Flat (-1, -1))
           (s\<lparr>time_calls := Suc (time_calls s)\<rparr>) = (Inr (highest, best), u)
        \<and> minimax self temp_board (depth - 1) (\<not> mx) (forecast u) = (Inl Timeout, u')
        \<longrightarrow> minimax self game depth mx s = (Inl Timeout, u'))
    \<and> (alphabeta_loop self depth True pre alpha beta NegInf (Flat (-1, -1))
           (s\<lparr>time_calls := Suc (time_calls s)\<rparr>) = (Inr (highest, best), u)
        \<and> (pre = [] \<or> highest < beta)
        \<and> alphabeta self temp_board (depth - 1) (max alpha highest) beta False (forecast u)
            = (Inl Timeout, u')
        \<longrightarrow> alphabeta self game depth alpha beta True s = (Inl Timeout, u'))
    \<and> (alphabeta_loop self depth False pre alpha beta PosInf (Flat (-1, -1))
           (s\<lparr>time_calls := Suc (time_calls s)\<rparr>) = (Inr (highest, best), u)
        \<and> (pre = [] \<or> alpha < highest)
        \<and> alphabeta self temp_board (depth - 1) alpha (min beta highest) True (forecast u)
            = (Inl Timeout, u')
        \<longrightarrow> alphabeta self game depth alpha beta False s = (Inl Timeout, u')))"
proof (intro conjI impI)
  assume "get_move self0 game0 legal_moves clock0 s0 = Some (r, s0')"
  then show "r \<noteq> Inl Timeout"
    using iterative_deepening_no_timeout
      [of "self0\<lparr>time_left := Some clock0\<rparr>" game0 1 sentinel NegInf s0 "(r, s0')"]
    by (auto simp: get_move_def fixed_depth_def Let_def
             split: option.splits sum.splits prod.splits if_splits)
next
  assume a: "time_left self = Some clock \<and> \<not> clock (time_calls s) < TIMER_THRESHOLD self
        \<and> depth \<noteq> 0 \<and> succs game = pre @ (next_move, temp_board) # rest"
    and h: "minimax_loop self depth mx pre (if mx then NegInf else PosInf) (Flat (-1, -1))
           (s\<lparr>time_calls := Suc (time_calls s)\<rparr>) = (Inr (highest, best), u)
        \<and> minimax self temp_board (depth - 1) (\<not> mx) (forecast u) = (Inl Timeout, u')"
  from h have loop: "minimax_loop self depth mx pre (if mx then NegInf else PosInf) sentinel
      (tick s) = (Inr (highest, best), u)"
    by (simp add: sentinel_def tick_def)
  have "minimax self game depth mx s
      = minimax_loop self depth mx ((next_move, temp_board) # rest) highest best u"
    using minimax_reaches[OF _ _ _ _ loop] a by blast
  then show "minimax self game depth mx s = (Inl Timeout, u')" using h by simp
next
  assume a: "time_left self = Some clock \<and> \<not> clock (time_calls s) < TIMER_THRESHOLD self
        \<and> depth \<noteq> 0 \<and> succs game = pre @ (next_move, temp_board) # rest"
    and h: "alphabeta_loop self depth True pre alpha beta NegInf (Flat (-1, -1))
           (s\<lparr>time_calls := Suc (time_calls s)\<rparr>) = (Inr (highest, best), u)
        \<and> (pre = [] \<or> highest < beta)
        \<and> alphabeta self temp_board (depth - 1) (max alpha highest) beta False (forecast u)
            = (Inl Timeout, u')"
  from h have loop: "alphabeta_loop self depth True pre alpha beta NegInf sentinel (tick s)
      = (Inr (highest, best), u)"
    by (simp add: sentinel_def tick_def)
  have "alphabeta self game depth alpha beta True s
      = alphabeta_loop self depth True ((next_move, temp_board) # rest)
          (max alpha highest) beta highest best u"
    using alphabeta_reaches_max[OF _ _ _ _ loop] a h by blast
  then show "alphabeta self game depth alpha beta True s = (Inl Timeout, u')" using h by simp
next
  assume a: "time_left self = Some clock \<and> \<not> clock (time_calls s) < TIMER_THRESHOLD self
        \<and> depth \<noteq> 0 \<and> succs game = pre @ (next_move, temp_board) # rest"
    and h: "alphabeta_loop self depth False pre alpha beta PosInf (Flat (-1, -1))
           (s\<lparr>time_calls := Suc (time_calls s)\<rparr>) = (Inr (highest, best), u)
        \<and> (pre = [] \<or> alpha < highest)
        \<and> alphabeta self temp_board (depth - 1) alpha (min beta highest) True (forecast u)
            = (Inl Timeout, u')"
  from h have loop: "alphabeta_loop self depth False pre alpha beta PosInf sentinel (tick s)
      = (Inr (highest, best), u)"
    by (simp add: sentinel_def tick_def)
  have "alphabeta self game depth alpha beta False s
      = alphabeta_loop self depth False ((next_move, temp_board) # rest)
          alpha (min beta highest) highest best u"
    using alphabeta_reaches_min[OF _ _ _ _ loop] a h by blast
  then show "alphabeta self game depth alpha beta False s = (Inl Timeout, u')" using h by simp
qed

text \<open>
  The theorem at a fixed-depth search that is cancelled in its first child, and at the
  calls on \<open>three_moves\<close> and \<open>after_e\<close>, one ply deep from a trace with 18 readings
  taken, where the search of the second child is cancelled.
\<close>

theorem timeout_never_leaves_get_move_witness:
  "get_move ratio_player three_moves [(2, 1), (1, 2), (3, 2)] (\<lambda>n. 200 - 10 * real n)
       \<lparr>time_calls = 19, score_calls = 0, forecast_calls = 0\<rparr>
     = Some (Inr (Flat (-1, -1)), \<lparr>time_calls = 21, score_calls = 0, forecast_calls = 1\<rparr>)
   \<and> Inr (Flat (-1, -1)) \<noteq> (Inl Timeout :: exn + move_val)
   \<and> time_left deepening_player = Some (\<lambda>n. 200 - 10 * real n)
   \<and> \<not> (200 - 10 * real (time_calls \<lparr>time_calls = 18, score_calls = 0, forecast_calls = 0\<rparr>))
          < TIMER_THRESHOLD deepening_player
   \<and> (1 :: int) \<noteq> 0
   \<and> succs three_moves = [((2, 1), after_a)] @ ((1, 2), after_b) # [((3, 2), after_c)]
   \<and> minimax_loop deepening_player 1 True [((2, 1), after_a)] (if True then NegInf else PosInf)
        (Flat (-1, -1)) \<lparr>time_calls = 19, score_calls = 0, forecast_calls = 0\<rparr>
      = (Inr (Fin 3, Flat (2, 1)), \<lparr>time_calls = 20, score_calls = 1, forecast_calls = 1\<rparr>)
   \<and> minimax deepening_player after_b (1 - 1) (\<not> True)
        (forecast \<lparr>time_calls = 20, score_calls = 1, forecast_calls = 1\<rparr>)
      = (Inl Timeout, \<lparr>time_calls = 21, score_calls = 1, forecast_calls = 2\<rparr>)
   \<and> minimax deepening_player three_moves 1 True
        \<lparr>time_calls = 18, score_calls = 0, forecast_calls = 0\<rparr>
      = (Inl Timeout, \<lparr>time_calls = 21, score_calls = 1, forecast_calls = 2\<rparr>)
   \<and> alphabeta_loop deepening_player 1 True [((2, 1), after_a)] NegInf PosInf NegInf
        (Flat (-1, -1)) \<lparr>time_calls = 19, score_calls = 0, forecast_calls = 0\<rparr>
      = (Inr (Fin 3, Flat (2, 1)), \<lparr>time_calls = 20, score_calls = 1, forecast_calls = 1\<rparr>)
   \<and> ([((2, 1), after_a)] = [] \<or> Fin 3 < PosInf)
   \<and> alphabeta deepening_player after_b (1 - 1) (max NegInf (Fin 3)) PosInf False
        (forecast \<lparr>time_calls = 20, score_calls = 1, forecast_calls = 1\<rparr>)
      = (Inl Timeout, \<lparr>time_calls = 21, score_calls = 1, forecast_calls = 2\<rparr>)
   \<and> alphabeta deepening_player three_moves 1 NegInf PosInf True
        \<lparr>time_calls = 18, score_calls = 0, forecast_calls = 0\<rparr>
      = (Inl Timeout, \<lparr>time_calls = 21, score_calls = 1, forecast_calls = 2\<rparr>)
   \<and> succs after_e = [((5, 5), reply_b)] @ ((5, 6), reply_c) # [((6, 5), reply_a)]
   \<and> alphabeta_loop deepening_player 1 False [((5, 5), reply_b)] (Fin (1 / 2)) PosInf PosInf
        (Flat (-1, -1)) \<lparr>time_calls = 19, score_calls = 0, forecast_calls = 0\<rparr>
      = (Inr (Fin 1, Nested (5, 5) (Flat (-1, -1))),
         \<lparr>time_calls = 20, score_calls = 1, forecast_calls = 1\<rparr>)
   \<and> ([((5, 5), reply_b)] = [] \<or> Fin (1 / 2) < Fin 1)
   \<and> alphabeta deepening_player reply_c (1 - 1) (Fin (1 / 2)) (min PosInf (Fin 1)) True
        (forecast \<lparr>time_calls = 20, score_calls = 1, forecast_calls = 1\<rparr>)
      = (Inl Timeout, \<lparr>time_calls = 21, score_calls = 1, forecast_calls = 2\<rparr>)
   \<and> alphabeta deepening_player after_e 1 (Fin (1 / 2)) PosInf False
        \<lparr>time_calls = 18, score_calls = 0, forecast_calls = 0\<rparr>
      = (Inl Timeout, \<lparr>time_calls = 21, score_calls = 1, forecast_calls = 2\<rparr>)"
proof -
  let ?s = "\<lparr>time_calls = 18, score_calls = 0, forecast_calls = 0\<rparr>"
  let ?s1 = "\<lparr>time_calls = 19, score_calls = 0, forecast_calls = 0\<rparr>"
  let ?u = "\<lparr>time_calls = 20, score_calls = 1, forecast_calls = 1\<rparr>"
  let ?u' = "\<lparr>time_calls = 21, score_calls = 1, forecast_calls = 2\<rparr>"
  have g: "get_move ratio_player three_moves [(2, 1), (1, 2), (3, 2)] (\<lambda>n. 200 - 10 * real n)
       ?s1 = Some (Inr (Flat (-1, -1)),
                   \<lparr>time_calls = 21, score_calls = 0, forecast_calls = 1\<rparr>)"
    by (simp add: get_move_def fixed_depth_def search_call_def ex_defs)
  have n1: "time_left deepening_player = Some (\<lambda>n. 200 - 10 * real n)
      \<and> \<not> (\<lambda>n. 200 - 10 * real n) (time_calls ?s) < TIMER_THRESHOLD deepening_player
      \<and> (1 :: int) \<noteq> 0
      \<and> succs three_moves = [((2, 1), after_a)] @ ((1, 2), after_b) # [((3, 2), after_c)]"
    by (simp add: deepening_player_def three_moves_def)
  have n2: "time_left deepening_player = Some (\<lambda>n. 200 - 10 * real n)
      \<and> \<not> (\<lambda>n. 200 - 10 * real n) (time_calls ?s) < TIMER_THRESHOLD deepening_player
      \<and> (1 :: int) \<noteq> 0
      \<and> succs after_e = [((5, 5), reply_b)] @ ((5, 6), reply_c) # [((6, 5), reply_a)]"
    by (simp add: deepening_player_def after_e_def)
  have m: "minimax_loop deepening_player 1 True [((2, 1), after_a)]
        (if True then NegInf else PosInf) (Flat (-1, -1)) (?s\<lparr>time_calls := Suc (time_calls ?s)\<rparr>)
      = (Inr (Fin 3, Flat (2, 1)), ?u)
   \<and> minimax deepening_player after_b (1 - 1) (\<not> True) (forecast ?u) = (Inl Timeout, ?u')"
    by (simp add: ex_defs)
  have a: "alphabeta_loop deepening_player 1 True [((2, 1), after_a)] NegInf PosInf NegInf
        (Flat (-1, -1)) (?s\<lparr>time_calls := Suc (time_calls ?s)\<rparr>)
      = (Inr (Fin 3, Flat (2, 1)), ?u)
   \<and> ([((2, 1), after_a)] = [] \<or> Fin 3 < PosInf)
   \<and> alphabeta deepening_player after_b (1 - 1) (max NegInf (Fin 3)) PosInf False
        (forecast ?u) = (Inl Timeout, ?u')"
    by (simp add: ex_defs)
  have b: "alphabeta_loop deepening_player 1 False [((5, 5), reply_b)] (Fin (1 / 2)) PosInf
        PosInf (Flat (-1, -1)) (?s\<lparr>time_calls := Suc (time_calls ?s)\<rparr>)
      = (Inr (Fin 1, Nested (5, 5) (Flat (-1, -1))), ?u)
   \<and> ([((5, 5), reply_b)] = [] \<or> Fin (1 / 2) < Fin 1)
   \<and> alphabeta deepening_player reply_c (1 - 1) (Fin (1 / 2)) (min PosInf (Fin 1)) True
        (forecast ?u) = (Inl Timeout, ?u')"
    by (simp add: ex_defs)
  note th = timeout_never_leaves_get_move
  note t1 = th[THEN conjunct1, rule_format, OF g]
  note t2 = th[THEN conjunct2, rule_format, OF n1, THEN conjunct1, rule_format, OF m]
  note t3 = th[THEN conjunct2, rule_format, OF n1, THEN conjunct2, THEN conjunct1,
      rule_format, OF a]
  note t4 = th[THEN conjunct2, rule_format, OF n2, THEN conjunct2, THEN conjunct2,
      rule_format, OF b]
  have e: "?s\<lparr>time_calls := Suc (time_calls ?s)\<rparr> = ?s1" by simp
  show ?thesis
    using g n1 n2 m a b t1 t2 t3 t4 unfolding e by simp
qed

section \<open>The cutoff of alpha-beta\<close>

text \<open>
  Claim C4. Take a call of \<open>alphabeta\<close> at an internal node, with a clock reading at
  entry that is not below the threshold, and a legal move \<open>next_move\<close>, with the moves
  \<open>pre\<close> before it and \<open>rest\<close> after it. At a maximizing node, let the loop over \<open>pre\<close>
  have ended with the running best \<open>highest_move_diff\<close> below \<open>beta\<close>, so without a
  cutoff, and let the child of \<open>next_move\<close> return \<open>curr_move_diff\<close>. If the running
  best, updated with it, is at or above \<open>beta\<close>, the call returns at once: its score is
  \<open>curr_move_diff\<close>, its move is \<open>next_move\<close>, the move that triggered the cutoff, and
  its trace is the one that child left, so none of the moves of \<open>rest\<close> is searched.
  At a minimizing node the same holds when the updated running best is at or below
  \<open>alpha\<close>.
\<close>

theorem alphabeta_cutoff:
  assumes "time_left self = Some clock" and "\<not> clock (time_calls s) < TIMER_THRESHOLD self"
    and "depth \<noteq> 0" and "succs game = pre @ (next_move, temp_board) # rest"
  shows "(alphabeta_loop self depth True pre alpha beta NegInf (Flat (-1, -1))
            (s\<lparr>time_calls := Suc (time_calls s)\<rparr>)
            = (Inr (highest_move_diff, overall_best_move), u)
          \<and> (pre = [] \<or> highest_move_diff < beta)
          \<and> alphabeta self temp_board (depth - 1) (max alpha highest_move_diff) beta False
              (forecast u) = (Inr (curr_move_diff, curr_best_move), u')
          \<and> beta \<le> (if curr_move_diff > highest_move_diff then curr_move_diff
                      else highest_move_diff)
          \<longrightarrow> alphabeta self game depth alpha beta True s
                = (Inr (curr_move_diff, Flat next_move), u'))
       \<and> (alphabeta_loop self depth False pre alpha beta PosInf (Flat (-1, -1))
            (s\<lparr>time_calls := Suc (time_calls s)\<rparr>)
            = (Inr (highest_move_diff, overall_best_move), u)
          \<and> (pre = [] \<or> alpha < highest_move_diff)
          \<and> alphabeta self temp_board (depth - 1) alpha (min beta highest_move_diff) True
              (forecast u) = (Inr (curr_move_diff, curr_best_move), u')
          \<and> (if curr_move_diff < highest_move_diff then curr_move_diff
              else highest_move_diff) \<le> alpha
          \<longrightarrow> alphabeta self game depth alpha beta False s
                = (Inr (curr_move_diff, Flat next_move), u'))"
proof (intro conjI impI)
  assume h: "alphabeta_loop self depth True pre alpha beta NegInf (Flat (-1, -1))
            (s\<lparr>time_calls := Suc (time_calls s)\<rparr>)
            = (Inr (highest_move_diff, overall_best_move), u)
          \<and> (pre = [] \<or> highest_move_diff < beta)
          \<and> alphabeta self temp_board (depth - 1) (max alpha highest_move_diff) beta False
              (forecast u) = (Inr (curr_move_diff, curr_best_move), u')
          \<and> beta \<le> (if curr_move_diff > highest_move_diff then curr_move_diff
                      else highest_move_diff)"
  then have loop: "alphabeta_loop self depth True pre alpha beta NegInf sentinel (tick s)
            = (Inr (highest_move_diff, overall_best_move), u)"
    by (simp add: sentinel_def tick_def)
  have "alphabeta self game depth alpha beta True s
      = alphabeta_loop self depth True ((next_move, temp_board) # rest)
          (max alpha highest_move_diff) beta highest_move_diff overall_best_move u"
    using alphabeta_reaches_max[OF assms loop] h by simp
  then show "alphabeta self game depth alpha beta True s
      = (Inr (curr_move_diff, Flat next_move), u')"
    using h by (simp add: Let_def)
next
  assume h: "alphabeta_loop self depth False pre alpha beta PosInf (Flat (-1, -1))
            (s\<lparr>time_calls := Suc (time_calls s)\<rparr>)
            = (Inr (highest_move_diff, overall_best_move), u)
          \<and> (pre = [] \<or> alpha < highest_move_diff)
          \<and> alphabeta self temp_board (depth - 1) alpha (min beta highest_move_diff) True
              (forecast u) = (Inr (curr_move_diff, curr_best_move), u')
          \<and> (if curr_move_diff < highest_move_diff then curr_move_diff
              else highest_move_diff) \<le> alpha"
  then have loop: "alphabeta_loop self depth False pre alpha beta PosInf sentinel (tick s)
            = (Inr (highest_move_diff, overall_best_move), u)"
    by (simp add: sentinel_def tick_def)
  have "alphabeta self game depth alpha beta False s
      = alphabeta_loop self depth False ((next_move, temp_board) # rest)
          alpha (min beta highest_move_diff) highest_move_diff overall_best_move u"
    using alphabeta_reaches_min[OF assms loop] h by simp
  then show "alphabeta self game depth alpha beta False s
      = (Inr (curr_move_diff, Flat next_move), u')"
    using h by (simp add: Let_def)
qed

text \<open>
  The theorem on \<open>ascending\<close> with \<open>beta = 2\<close>: the first child scores 1, the second
  scores 2 and triggers the cutoff, the third is not searched. And on \<open>after_e\<close> with
  \<open>alpha = 1/2\<close>: the first child scores 1, the second scores 1/3 and triggers the
  cutoff, the third is not searched.
\<close>

theorem alphabeta_cutoff_witness:
  "time_left deepening_player = Some (\<lambda>n. 200 - 10 * real n)
   \<and> \<not> (200 - 10 * real (time_calls start)) < TIMER_THRESHOLD deepening_player
   \<and> (1 :: int) \<noteq> 0
   \<and> succs ascending = [((3, 2), after_c)] @ ((1, 2), after_b) # [((2, 1), after_a)]
   \<and> alphabeta_loop deepening_player 1 True [((3, 2), after_c)] NegInf (Fin 2) NegInf
        (Flat (-1, -1)) (start\<lparr>time_calls := Suc (time_calls start)\<rparr>)
      = (Inr (Fin 1, Flat (3, 2)), \<lparr>time_calls = 2, score_calls = 1, forecast_calls = 1\<rparr>)
   \<and> ([((3, 2), after_c)] = [] \<or> Fin 1 < Fin 2)
   \<and> alphabeta deepening_player after_b (1 - 1) (max NegInf (Fin 1)) (Fin 2) False
        (forecast \<lparr>time_calls = 2, score_calls = 1, forecast_calls = 1\<rparr>)
      = (Inr (Fin 2, Flat (-1, -1)), \<lparr>time_calls = 3, score_calls = 2, forecast_calls = 2\<rparr>)
   \<and> Fin 2 \<le> (if Fin 2 > Fin 1 then Fin 2 else Fin 1)
   \<and> alphabeta deepening_player ascending 1 NegInf (Fin 2) True start
      = (Inr (Fin 2, Flat (1, 2)), \<lparr>time_calls = 3, score_calls = 2, forecast_calls = 2\<rparr>)
   \<and> succs after_e = [((5, 5), reply_b)] @ ((5, 6), reply_c) # [((6, 5), reply_a)]
   \<and> alphabeta_loop deepening_player 1 False [((5, 5), reply_b)] (Fin (1 / 2)) PosInf PosInf
        (Flat (-1, -1)) (start\<lparr>time_calls := Suc (time_calls start)\<rparr>)
      = (Inr (Fin 1, Nested (5, 5) (Flat (-1, -1))),
         \<lparr>time_calls = 2, score_calls = 1, forecast_calls = 1\<rparr>)
   \<and> ([((5, 5), reply_b)] = [] \<or> Fin (1 / 2) < Fin 1)
   \<and> alphabeta deepening_player reply_c (1 - 1) (Fin (1 / 2)) (min PosInf (Fin 1)) True
        (forecast \<lparr>time_calls = 2, score_calls = 1, forecast_calls = 1\<rparr>)
      = (Inr (Fin (1 / 3), Flat (-1, -1)),
         \<lparr>time_calls = 3, score_calls = 2, forecast_calls = 2\<rparr>)
   \<and> (if Fin (1 / 3) < Fin 1 then Fin (1 / 3) else Fin 1) \<le> Fin (1 / 2)
   \<and> alphabeta deepening_player after_e 1 (Fin (1 / 2)) PosInf False start
      = (Inr (Fin (1 / 3), Flat (5, 6)),
         \<lparr>time_calls = 3, score_calls = 2, forecast_calls = 2\<rparr>)"
proof -
  let ?u = "\<lparr>time_calls = 2, score_calls = 1, forecast_calls = 1\<rparr>"
  let ?u' = "\<lparr>time_calls = 3, score_calls = 2, forecast_calls = 2\<rparr>"
  have h1: "time_left deepening_player = Some (\<lambda>n. 200 - 10 * real n)"
    by (simp add: deepening_player_def)
  have h2: "\<not> (\<lambda>n. 200 - 10 * real n) (time_calls start) < TIMER_THRESHOLD deepening_player"
    by (simp add: deepening_player_def start_def)
  have h3: "(1 :: int) \<noteq> 0" by simp
  have g1: "succs ascending = [((3, 2), after_c)] @ ((1, 2), after_b) # [((2, 1), after_a)]"
    by (simp add: ascending_def)
  have g2: "succs after_e = [((5, 5), reply_b)] @ ((5, 6), reply_c) # [((6, 5), reply_a)]"
    by (simp add: after_e_def)
  have a1: "alphabeta_loop deepening_player 1 True [((3, 2), after_c)] NegInf (Fin 2) NegInf
        (Flat (-1, -1)) (start\<lparr>time_calls := Suc (time_calls start)\<rparr>)
      = (Inr (Fin 1, Flat (3, 2)), ?u)
   \<and> ([((3, 2), after_c)] = [] \<or> Fin 1 < Fin 2)
   \<and> alphabeta deepening_player after_b (1 - 1) (max NegInf (Fin 1)) (Fin 2) False
        (forecast ?u) = (Inr (Fin 2, Flat (-1, -1)), ?u')
   \<and> Fin 2 \<le> (if Fin 2 > Fin 1 then Fin 2 else Fin 1)"
    by (simp add: ex_defs)
  have a2: "alphabeta_loop deepening_player 1 False [((5, 5), reply_b)] (Fin (1 / 2)) PosInf
        PosInf (Flat (-1, -1)) (start\<lparr>time_calls := Suc (time_calls start)\<rparr>)
      = (Inr (Fin 1, Nested (5, 5) (Flat (-1, -1))), ?u)
   \<and> ([((5, 5), reply_b)] = [] \<or> Fin (1 / 2) < Fin 1)
   \<and> alphabeta deepening_player reply_c (1 - 1) (Fin (1 / 2)) (min PosInf (Fin 1)) True
        (forecast ?u) = (Inr (Fin (1 / 3), Flat (-1, -1)), ?u')
   \<and> (if Fin (1 / 3) < Fin 1 then Fin (1 / 3) else Fin 1) \<le> Fin (1 / 2)"
    by (simp add: ex_defs)
  note t1 = alphabeta_cutoff[OF h1 h2 h3 g1, THEN conjunct1, rule_format, OF a1]
  note t2 = alphabeta_cutoff[OF h1 h2 h3 g2, THEN conjunct2, rule_format, OF a2]
  have h2': "\<not> (200 - 10 * real (time_calls start)) < TIMER_THRESHOLD deepening_player"
    using h2 by simp
  show ?thesis using h1 h2' h3 g1 g2 a1 a2 t1 t2 by blast
qed

section \<open>Which move a node keeps\<close>






section \<open>The move a search returns\<close>


section \<open>Iterative deepening\<close>

lemma iterative_deepening_rounds:
  "completed_rounds self game k depth s = Some (rs, s') \<Longrightarrow>
   search_call self game (depth + int k) s' = Some (Inl Timeout, s'') \<Longrightarrow>
   iterative_deepening self game depth best_move best_score s
     = Some (Inr (snd (foldl keep_better (best_score, best_move) rs)), s'')"
proof (induction k arbitrary: depth s rs best_move best_score)
  case 0
  then show ?case by (subst iterative_deepening.simps) simp
next
  case (Suc k)
  from Suc.prems(1) obtain r t rs' where
    call: "search_call self game depth s = Some (Inr r, t)" and
    rest: "completed_rounds self game k (depth + 1) t = Some (rs', s')" and
    rs: "rs = r # rs'"
    by (auto split: option.splits sum.splits prod.splits)
  obtain sc mv where r: "r = (sc, mv)" by (cases r)
  have tm: "search_call self game (depth + 1 + int k) s' = Some (Inl Timeout, s'')"
    using Suc.prems(2) by (simp add: algebra_simps)
  show ?case
    using call r rs Suc.IH[OF rest tm]
    by (subst iterative_deepening.simps) simp
qed

text \<open>
  What the loop of \<open>get_move\<close> returns. In iterative mode, with a non-empty list of
  legal moves, let the searches at depths 1, 2, ..., \<open>k\<close> return normally with the
  results \<open>rs\<close>, and let the search at depth \<open>k + 1\<close> raise \<open>Timeout\<close>. Then \<open>get_move\<close>
  returns the move that \<open>keep_better\<close> has kept over \<open>rs\<close>, from the sentinel and
  \<open>-inf\<close>; with no completed round that is the sentinel \<open>(-1, -1)\<close>.
\<close>

lemma iterative_deepening_keeps_best:
  assumes "iterative self" and "legal_moves \<noteq> []"
    and "completed_rounds (self\<lparr>time_left := Some clock\<rparr>) game k 1 s = Some (rs, s')"
    and "search_call (self\<lparr>time_left := Some clock\<rparr>) game (1 + int k) s' = Some (Inl Timeout, s'')"
  shows "get_move self game legal_moves clock s
           = Some (Inr (snd (foldl keep_better (NegInf, Flat (-1, -1)) rs)), s'')"
  using assms iterative_deepening_rounds[OF assms(3) assms(4), of "Flat (-1, -1)" NegInf]
  by (simp add: get_move_def sentinel_def)

text \<open>
  Claim C3 on \<open>three_moves\<close>. The depths 1 and 2 complete and the depth 3 is cancelled
  at the reading number 20. The last depth that completed is 2, and the best move it
  found is \<open>(1, 2)\<close>, with the score 1; \<open>get_move\<close> returns \<open>(2, 1)\<close>, the best move of
  depth 1, because the score 1 is not greater than the score 3 of depth 1.
\<close>

theorem iterative_deepening_not_last_depth:
  "minimax deepening_player three_moves 1 True start
     = (Inr (Fin 3, Flat (2, 1)), \<lparr>time_calls = 4, score_calls = 3, forecast_calls = 3\<rparr>)
   \<and> minimax deepening_player three_moves 2 True
        \<lparr>time_calls = 4, score_calls = 3, forecast_calls = 3\<rparr>
     = (Inr (Fin 1, Flat (1, 2)), \<lparr>time_calls = 12, score_calls = 7, forecast_calls = 10\<rparr>)
   \<and> minimax deepening_player three_moves 3 True
        \<lparr>time_calls = 12, score_calls = 7, forecast_calls = 10\<rparr>
     = (Inl Timeout, \<lparr>time_calls = 21, score_calls = 9, forecast_calls = 18\<rparr>)
   \<and> get_move deepening_player three_moves [(2, 1), (1, 2), (3, 2)]
        (\<lambda>n. 200 - 10 * real n) start
     = Some (Inr (Flat (2, 1)), \<lparr>time_calls = 21, score_calls = 9, forecast_calls = 18\<rparr>)
   \<and> Flat (2, 1) \<noteq> Flat (1, 2)"
proof -
  have c: "completed_rounds deepening_player three_moves 2 1 start
      = Some ([(Fin 3, Flat (2, 1)), (Fin 1, Flat (1, 2))],
              \<lparr>time_calls = 12, score_calls = 7, forecast_calls = 10\<rparr>)"
    by (simp add: numeral_2_eq_2 search_call_def ex_defs)
  have t: "search_call deepening_player three_moves (1 + int 2)
        \<lparr>time_calls = 12, score_calls = 7, forecast_calls = 10\<rparr>
      = Some (Inl Timeout, \<lparr>time_calls = 21, score_calls = 9, forecast_calls = 18\<rparr>)"
    by (simp add: search_call_def ex_defs)
  have p: "deepening_player\<lparr>time_left := Some (\<lambda>n. 200 - 10 * real n)\<rparr> = deepening_player"
    by (simp add: deepening_player_def)
  have g: "get_move deepening_player three_moves [(2, 1), (1, 2), (3, 2)]
        (\<lambda>n. 200 - 10 * real n) start
     = Some (Inr (Flat (2, 1)), \<lparr>time_calls = 21, score_calls = 9, forecast_calls = 18\<rparr>)"
    using iterative_deepening_rounds[OF c t, of sentinel NegInf]
    by (simp add: get_move_def p) (simp add: deepening_player_def sentinel_def)
  show ?thesis
    using g by (simp add: ex_defs)
qed

section \<open>Alpha-beta against minimax\<close>

text \<open>
  The invariant of the two loops run side by side: \<open>hm\<close> is the running best of
  \<open>minimax\<close>, \<open>hi\<close> the one of \<open>alphabeta\<close>, \<open>alpha0\<close> (\<open>beta0\<close>) the bound the node
  was called with.
\<close>

lemma alphabeta_loop_max_fail_soft:
  assumes "\<And>m b d' mx' a' b' s1 s2 w m1 t1 v m2 t2.
      (m, b) \<in> set cs \<Longrightarrow> minimax self b d' mx' s1 = (Inr (w, m1), t1) \<Longrightarrow>
      alphabeta self b d' a' b' mx' s2 = (Inr (v, m2), t2) \<Longrightarrow> a' < b' \<Longrightarrow> fail_soft a' b' w v"
    and "minimax_loop self d True cs hm bm s1 = (Inr (w, m1), t1)"
    and "alphabeta_loop self d True cs alpha beta hi best s2 = (Inr (v, m2), t2)"
    and "alpha0 < beta" and "hi < beta" and "alpha = max alpha0 hi"
    and "hi \<le> alpha0 \<longrightarrow> hm \<le> hi" and "alpha0 < hi \<longrightarrow> hm = hi"
  shows "fail_soft alpha0 beta w v"
  using assms
proof (induction cs arbitrary: hm bm s1 alpha hi best s2)
  case Nil
  then show ?case by (auto simp: fail_soft_def)
next
  case (Cons c cs)
  obtain m b where c: "c = (m, b)" by (cases c)
  note inv = Cons.prems(4-8)
  from Cons.prems(2)[unfolded c] obtain wc wm u1 where
    mchild: "minimax self b (d - 1) False (forecast s1) = (Inr (wc, wm), u1)" and
    mrest: "minimax_loop self d True cs (max hm wc) (if hm < wc then Flat m else bm) u1
              = (Inr (w, m1), t1)"
    by (rule minimax_loop_ConsE) auto
  from Cons.prems(3)[unfolded c] obtain vc vm u2 where
    achild: "alphabeta self b (d - 1) alpha beta False (forecast s2) = (Inr (vc, vm), u2)" and
    cut: "beta \<le> max hi vc \<Longrightarrow> (v, m2) = (vc, Flat m) \<and> t2 = u2" and
    arest: "\<not> beta \<le> max hi vc \<Longrightarrow>
       alphabeta_loop self d True cs (max alpha vc) beta (max hi vc)
         (if hi < vc then Flat m else best) u2 = (Inr (v, m2), t2)"
    by (rule alphabeta_loop_ConsE) auto
  have ab: "alpha < beta" using inv by (simp add: max_def)
  have child: "fail_soft alpha beta wc vc"
    using Cons.prems(1)[of m b, OF _ mchild achild ab] c by simp
  have wge: "max hm wc \<le> w" using minimax_loop_mono[OF mrest] by simp
  show ?case
  proof (cases "beta \<le> max hi vc")
    case True
    then have "v = vc" using cut by simp
    moreover have "beta \<le> vc" using True inv by (auto simp: max_def split: if_splits)
    ultimately show ?thesis using child wge ab inv
      by (auto simp: fail_soft_def max_def split: if_splits)
  next
    case False
    have kids: "\<And>m b d' mx' a' b' s1 s2 w m1 t1 v m2 t2.
      (m, b) \<in> set cs \<Longrightarrow> minimax self b d' mx' s1 = (Inr (w, m1), t1) \<Longrightarrow>
      alphabeta self b d' a' b' mx' s2 = (Inr (v, m2), t2) \<Longrightarrow> a' < b' \<Longrightarrow> fail_soft a' b' w v"
      using Cons.prems(1) by (meson list.set_intros(2))
    have i1: "max hi vc < beta" using False linorder_not_le by blast
    have i2: "max alpha vc = max alpha0 (max hi vc)" using inv by (simp add: max.assoc)
    have i3: "max hi vc \<le> alpha0 \<longrightarrow> max hm wc \<le> max hi vc"
      using child inv by (auto simp: fail_soft_def max_def split: if_splits)
    have i4: "alpha0 < max hi vc \<longrightarrow> max hm wc = max hi vc"
      using child inv i1 by (auto simp: fail_soft_def max_def split: if_splits)
    show ?thesis
      using Cons.IH[OF kids mrest arest[OF False] inv(1) i1 i2 i3 i4] .
  qed
qed

lemma alphabeta_loop_min_fail_soft:
  assumes "\<And>m b d' mx' a' b' s1 s2 w m1 t1 v m2 t2.
      (m, b) \<in> set cs \<Longrightarrow> minimax self b d' mx' s1 = (Inr (w, m1), t1) \<Longrightarrow>
      alphabeta self b d' a' b' mx' s2 = (Inr (v, m2), t2) \<Longrightarrow> a' < b' \<Longrightarrow> fail_soft a' b' w v"
    and "minimax_loop self d False cs hm bm s1 = (Inr (w, m1), t1)"
    and "alphabeta_loop self d False cs alpha beta hi best s2 = (Inr (v, m2), t2)"
    and "alpha < beta0" and "alpha < hi" and "beta = min beta0 hi"
    and "beta0 \<le> hi \<longrightarrow> hi \<le> hm" and "hi < beta0 \<longrightarrow> hm = hi"
  shows "fail_soft alpha beta0 w v"
  using assms
proof (induction cs arbitrary: hm bm s1 beta hi best s2)
  case Nil
  then show ?case by (auto simp: fail_soft_def)
next
  case (Cons c cs)
  obtain m b where c: "c = (m, b)" by (cases c)
  note inv = Cons.prems(4-8)
  from Cons.prems(2)[unfolded c] obtain wc wm u1 where
    mchild: "minimax self b (d - 1) True (forecast s1) = (Inr (wc, wm), u1)" and
    mrest: "minimax_loop self d False cs (min hm wc) (if wc < hm then Flat m else bm) u1
              = (Inr (w, m1), t1)"
    by (rule minimax_loop_ConsE) auto
  from Cons.prems(3)[unfolded c] obtain vc vm u2 where
    achild: "alphabeta self b (d - 1) alpha beta True (forecast s2) = (Inr (vc, vm), u2)" and
    cut: "min hi vc \<le> alpha \<Longrightarrow> (v, m2) = (vc, Flat m) \<and> t2 = u2" and
    arest: "\<not> min hi vc \<le> alpha \<Longrightarrow>
       alphabeta_loop self d False cs alpha (min beta vc) (min hi vc)
         (if vc < hi then Nested m best else best) u2 = (Inr (v, m2), t2)"
    by (rule alphabeta_loop_ConsE) auto
  have ab: "alpha < beta" using inv by (simp add: min_def)
  have child: "fail_soft alpha beta wc vc"
    using Cons.prems(1)[of m b, OF _ mchild achild ab] c by simp
  have wle: "w \<le> min hm wc" using minimax_loop_mono[OF mrest] by simp
  show ?case
  proof (cases "min hi vc \<le> alpha")
    case True
    then have "v = vc" using cut by simp
    moreover have "vc \<le> alpha" using True inv by (auto simp: min_def split: if_splits)
    ultimately show ?thesis using child wle ab inv
      by (auto simp: fail_soft_def min_def split: if_splits)
  next
    case False
    have kids: "\<And>m b d' mx' a' b' s1 s2 w m1 t1 v m2 t2.
      (m, b) \<in> set cs \<Longrightarrow> minimax self b d' mx' s1 = (Inr (w, m1), t1) \<Longrightarrow>
      alphabeta self b d' a' b' mx' s2 = (Inr (v, m2), t2) \<Longrightarrow> a' < b' \<Longrightarrow> fail_soft a' b' w v"
      using Cons.prems(1) by (meson list.set_intros(2))
    have i1: "alpha < min hi vc" using False linorder_not_le by blast
    have i2: "min beta vc = min beta0 (min hi vc)" using inv by (simp add: min.assoc)
    have i3: "beta0 \<le> min hi vc \<longrightarrow> min hi vc \<le> min hm wc"
      using child inv by (auto simp: fail_soft_def min_def split: if_splits)
    have i4: "min hi vc < beta0 \<longrightarrow> min hm wc = min hi vc"
      using child inv i1 by (auto simp: fail_soft_def min_def split: if_splits)
    show ?thesis
      using Cons.IH[OF kids mrest arest[OF False] inv(1) i1 i2 i3 i4] .
  qed
qed

lemma alphabeta_fail_soft:
  "minimax self game d mx s1 = (Inr (w, m1), t1) \<Longrightarrow>
   alphabeta self game d alpha beta mx s2 = (Inr (v, m2), t2) \<Longrightarrow> alpha < beta \<Longrightarrow>
   fail_soft alpha beta w v"
proof (induction game arbitrary: d mx s1 w m1 t1 alpha beta s2 v m2 t2)
  case (Board wd ht bl act cs inact)
  let ?g = "Board wd ht bl act cs inact"
  have kids: "fail_soft a' b' w v"
    if "(m, b) \<in> set cs" "minimax self b d' mx' s1 = (Inr (w, m1), t1)"
      "alphabeta self b d' a' b' mx' s2 = (Inr (v, m2), t2)" "a' < b'"
    for m b d' mx' a' b' s1 s2 w m1 t1 v m2 t2
    using Board.IH[OF that(1) _ that(2) that(3) that(4)] by simp
  from Board.prems(1) show ?case
  proof (cases rule: minimax_InrE)
    case (leaf x)
    with Board.prems(2) have "v = w"
      by (auto elim!: alphabeta_InrE)
    then show ?thesis by (simp add: fail_soft_def)
  next
    case node
    with Board.prems(2) have aloop:
      "alphabeta_loop self d mx cs alpha beta (if mx then NegInf else PosInf) sentinel (tick s2)
         = (Inr (v, m2), t2)"
      by (auto elim!: alphabeta_InrE)
    have mloop: "minimax_loop self d mx cs (if mx then NegInf else PosInf) sentinel (tick s1)
         = (Inr (w, m1), t1)"
      using node by simp
    show ?thesis
    proof (cases mx)
      case True
      have nb: "NegInf < beta" using Board.prems(3) by (cases beta) auto
      have m: "minimax_loop self d True cs NegInf sentinel (tick s1) = (Inr (w, m1), t1)"
        using mloop True by simp
      have a: "alphabeta_loop self d True cs alpha beta NegInf sentinel (tick s2)
                 = (Inr (v, m2), t2)"
        using aloop True by simp
      show ?thesis
        by (rule alphabeta_loop_max_fail_soft[OF kids m a Board.prems(3) nb])
           (simp_all add: max_def)
    next
      case False
      have pa: "alpha < PosInf" using Board.prems(3) by (cases alpha) auto
      have m: "minimax_loop self d False cs PosInf sentinel (tick s1) = (Inr (w, m1), t1)"
        using mloop False by simp
      have a: "alphabeta_loop self d False cs alpha beta PosInf sentinel (tick s2)
                 = (Inr (v, m2), t2)"
        using aloop False by simp
      show ?thesis
        by (rule alphabeta_loop_min_fail_soft[OF kids m a Board.prems(3) pa])
           (simp_all add: min_def)
    qed
  qed
qed

text \<open>
  Claim C1. For every player (so every heuristic), board and depth: when
  \<open>minimax\<close> and \<open>alphabeta\<close>, called with their default arguments (\<open>alpha = -inf\<close>,
  \<open>beta = +inf\<close>, maximizing), both return normally, they return the same score. The
  two runs may start from different traces.
\<close>

theorem alphabeta_score_is_minimax_score:
  assumes "minimax self game depth True s1 = (Inr (score1, move1), t1)"
    and "alphabeta self game depth NegInf PosInf True s2 = (Inr (score2, move2), t2)"
  shows "score1 = score2"
proof -
  have "fail_soft NegInf PosInf score1 score2"
    using alphabeta_fail_soft[OF assms] by simp
  then show ?thesis
    by (cases score2) (auto simp: fail_soft_def)
qed

text \<open>
  The theorem on \<open>three_moves\<close>, two plies deep: both return the score 1;
  \<open>alphabeta\<close> reads the clock 7 times, \<open>minimax\<close> 8 times.
\<close>

theorem alphabeta_score_is_minimax_score_witness:
  "minimax deepening_player three_moves 2 True start
     = (Inr (Fin 1, Flat (1, 2)), \<lparr>time_calls = 8, score_calls = 4, forecast_calls = 7\<rparr>)
   \<and> alphabeta deepening_player three_moves 2 NegInf PosInf True start
     = (Inr (Fin 1, Flat (1, 2)), \<lparr>time_calls = 7, score_calls = 3, forecast_calls = 6\<rparr>)
   \<and> Fin 1 = Fin 1"
proof -
  have m: "minimax deepening_player three_moves 2 True start
     = (Inr (Fin 1, Flat (1, 2)), \<lparr>time_calls = 8, score_calls = 4, forecast_calls = 7\<rparr>)"
    by (simp add: ex_defs)
  have a: "alphabeta deepening_player three_moves 2 NegInf PosInf True start
     = (Inr (Fin 1, Flat (1, 2)), \<lparr>time_calls = 7, score_calls = 3, forecast_calls = 6\<rparr>)"
    by (simp add: ex_defs)
  show ?thesis using m a alphabeta_score_is_minimax_score[OF m a] by simp
qed

end
